theory Spec2Isabelle
  imports Main "HOL-Library.Word" "HOL-Library.Char_ord" "HOL-Library.List_Lexorder"
begin

section \<open>Machine types and failures\<close>

text \<open>
  \<open>unsigned\<close> is a 32-bit word: external ids, dense vertex indices and distances all have
  this type in the source. The colour array of the search is a \<open>std::vector<char>\<close>.
\<close>

type_synonym uint = "32 word"
type_synonym cchar = "8 word"

text \<open>
  \<open>OutOfRange\<close> is the \<open>std::out_of_range\<close> exception of \<open>unordered_map::at\<close>.
  \<open>BadIndex\<close> stands for an unchecked \<open>operator[]\<close> outside its vector and \<open>Dangling\<close>
  for a write through a reference that a reallocation has invalidated. C++ leaves both
  undefined; the model makes them failures, so that their absence or presence can be
  proved.
\<close>

datatype error = OutOfRange | BadIndex | Dangling

section \<open>Digraph\<close>

text \<open>
  The three private members of \<open>Digraph\<close>, and \<open>capacity\<close>, the capacity of the vector
  \<open>graph\<close>: the number of rows its storage holds before an \<open>emplace_back\<close> must move
  the rows to new storage. It is the one capacity that matters, because \<open>add_edge\<close> keeps
  a reference to a row of \<open>graph\<close> across a call that may append to \<open>graph\<close>; nothing
  holds a reference into \<open>vert_id_map\<close> or \<open>id_vert_map\<close> while they grow.
\<close>

record digraph =
  graph :: "uint list list"
  id_vert_map :: "uint \<rightharpoonup> uint"
  vert_id_map :: "uint list"
  capacity :: nat

text \<open>A default-constructed \<open>Digraph\<close>: empty containers, no storage.\<close>

definition empty_digraph :: digraph where
  "empty_digraph = \<lparr>graph = [], id_vert_map = Map.empty, vert_id_map = [], capacity = 0\<rparr>"

text \<open>
  \<open>reset_graph_size\<close>: \<open>reserve(size)\<close> on the three containers. On \<open>graph\<close> it allocates
  storage for \<open>size\<close> rows when that is more than the capacity, and changes nothing
  otherwise.
\<close>

definition reset_graph_size :: "nat \<Rightarrow> digraph \<Rightarrow> digraph" where
  "reset_graph_size n g = g\<lparr>capacity := max (capacity g) n\<rparr>"

text \<open>
  \<open>graph.emplace_back()\<close>: a new empty row. When the storage is full the vector
  reallocates, which invalidates every reference to a row; the new capacity is the
  doubled one (1 for an empty vector), the growth of libstdc++ and libc++.
\<close>

definition reallocates :: "digraph \<Rightarrow> bool" where
  "reallocates g \<longleftrightarrow> length (graph g) = capacity g"

definition grown_capacity :: "nat \<Rightarrow> nat" where
  "grown_capacity c = max 1 (2 * c)"

definition emplace_back_row :: "digraph \<Rightarrow> digraph" where
  "emplace_back_row g =
     g\<lparr>graph := graph g @ [[]],
       capacity := (if reallocates g then grown_capacity (capacity g) else capacity g)\<rparr>"

definition size_digraph :: "digraph \<Rightarrow> nat" where
  "size_digraph g = length (graph g)"

text \<open>
  \<open>get_or_add_vert\<close>: \<open>emplace\<close> inserts only when the key is absent; the value offered is
  \<open>vert_id_map.size()\<close> converted from \<open>size_t\<close> to \<open>unsigned\<close>, hence \<open>of_nat\<close>.
\<close>

definition get_or_add_vert :: "uint \<Rightarrow> digraph \<Rightarrow> uint \<times> digraph" where
  "get_or_add_vert v g =
     (case id_vert_map g v of
        Some i \<Rightarrow> (i, g)
      | None \<Rightarrow>
          (of_nat (length (vert_id_map g)),
           emplace_back_row
             (g\<lparr>id_vert_map := (id_vert_map g)(v \<mapsto> of_nat (length (vert_id_map g))),
                vert_id_map := vert_id_map g @ [v]\<rparr>)))"

text \<open>
  \<open>add_edge\<close>: \<open>graph[get_or_add_vert(v)].emplace_back(get_or_add_vert(w))\<close>. The source
  is C++17 (it includes \<open><charconv>\<close>), where the object expression of a member call is
  sequenced before its arguments: \<open>v\<close> is registered and the reference to its row is
  bound first; then \<open>w\<close> is registered; then the row is written through the reference.
  When \<open>w\<close> is new and \<open>graph\<close> is full, registering \<open>w\<close> reallocates \<open>graph\<close> and the
  reference dangles.
\<close>

definition add_edge :: "uint \<Rightarrow> uint \<Rightarrow> digraph \<Rightarrow> error + digraph" where
  "add_edge v w g =
     (let (iv, g1) = get_or_add_vert v g in
      if unat iv < length (graph g1) then
        (let (iw, g2) = get_or_add_vert w g1 in
         if id_vert_map g1 w = None \<and> reallocates g1 then Inl Dangling
         else Inr (g2\<lparr>graph := (graph g2)[unat iv := graph g2 ! unat iv @ [iw]]\<rparr>))
      else Inl BadIndex)"

text \<open>The in-place loop \<open>n = vert_id_map[n]\<close> over a copy of the row.\<close>

fun to_ids :: "uint list \<Rightarrow> uint list \<Rightarrow> error + uint list" where
  "to_ids vim [] = Inr []"
| "to_ids vim (n # ns) =
     (if unat n < length vim then
        (case to_ids vim ns of Inl e \<Rightarrow> Inl e | Inr r \<Rightarrow> Inr (vim ! unat n # r))
      else Inl BadIndex)"

definition get_neighbours :: "digraph \<Rightarrow> uint \<Rightarrow> error + uint list" where
  "get_neighbours g v =
     (case id_vert_map g v of
        Some i \<Rightarrow>
          (if unat i < length (graph g) then to_ids (vert_id_map g) (graph g ! unat i)
           else Inl BadIndex)
      | None \<Rightarrow> Inr [])"

text \<open>
  The digraphs a program can build: the default one, then any calls of the two mutators
  whose behaviour is defined.
\<close>

inductive constructed :: "digraph \<Rightarrow> bool" where
  constructed_empty: "constructed empty_digraph"
| constructed_reserve: "constructed g \<Longrightarrow> constructed (reset_graph_size n g)"
| constructed_edge: "constructed g \<Longrightarrow> add_edge v w g = Inr g' \<Longrightarrow> constructed g'"

text \<open>The representation invariant of \<open>Digraph\<close>.\<close>

definition wf_digraph :: "digraph \<Rightarrow> bool" where
  "wf_digraph g \<longleftrightarrow>
     length (graph g) = length (vert_id_map g) \<and>
     distinct (vert_id_map g) \<and>
     (\<forall>x i. id_vert_map g x = Some i \<longleftrightarrow>
        unat i < length (vert_id_map g) \<and> vert_id_map g ! unat i = x) \<and>
     (\<forall>row \<in> set (graph g). \<forall>n \<in> set row. unat n < length (vert_id_map g)) \<and>
     length (graph g) \<le> capacity g"

section \<open>ShortestCommonAncestor\<close>

text \<open>The locals of \<open>ancestor_length\<close> that the search loop reads and writes.\<close>

record bfs_state =
  color :: "cchar list"
  distance :: "uint list"
  queue :: "uint list"
  min_distance :: uint
  min_distance_ancestor :: uint

text \<open>
  First seeding loop: \<open>id_vert_map.at(id)\<close> throws on an unknown id; the vertex gets
  colour 1 and is queued.
\<close>

fun seed_a :: "(uint \<rightharpoonup> uint) \<Rightarrow> uint list \<Rightarrow> cchar list \<times> uint list
    \<Rightarrow> error + cchar list \<times> uint list" where
  "seed_a ivm [] cq = Inr cq"
| "seed_a ivm (i # ids) (col, q) =
     (case ivm i of
        None \<Rightarrow> Inl OutOfRange
      | Some vert \<Rightarrow>
          if unat vert < length col then seed_a ivm ids (col[unat vert := 1], q @ [vert])
          else Inl BadIndex)"

text \<open>
  Second seeding loop: the same, with colour 2, except that a vertex already coloured 1
  ends the whole query with \<open>{id, 0}\<close>.
\<close>

datatype seeded = Return "uint \<times> uint" | Continue "cchar list \<times> uint list"

fun seed_b :: "(uint \<rightharpoonup> uint) \<Rightarrow> uint list \<Rightarrow> cchar list \<times> uint list
    \<Rightarrow> error + seeded" where
  "seed_b ivm [] cq = Inr (Continue cq)"
| "seed_b ivm (i # ids) (col, q) =
     (case ivm i of
        None \<Rightarrow> Inl OutOfRange
      | Some vert \<Rightarrow>
          if unat vert < length col then
            (if col ! unat vert = 1 then Inr (Return (i, 0))
             else seed_b ivm ids (col[unat vert := 2], q @ [vert]))
          else Inl BadIndex)"

text \<open>
  The inner \<open>for\<close> loop over the row of the popped vertex. The indices an iteration
  may use (\<open>to\<close> and \<open>vert\<close>, in \<open>color\<close> and in \<open>distance\<close>, two vectors of one size)
  are checked together at its start.
\<close>

fun visit :: "uint \<Rightarrow> uint list \<Rightarrow> bfs_state \<Rightarrow> error + bfs_state" where
  "visit vert [] s = Inr s"
| "visit vert (to # tos) s =
     (if unat to < length (color s) \<and> unat to < length (distance s) \<and>
         unat vert < length (color s) \<and> unat vert < length (distance s) then
        (if color s ! unat to = 0 then
           visit vert tos
             (s\<lparr>color := (color s)[unat to := color s ! unat vert],
                distance := (distance s)[unat to := distance s ! unat vert + 1],
                queue := queue s @ [to]\<rparr>)
         else if color s ! unat to \<noteq> color s ! unat vert then
           (let current_distance = distance s ! unat to + distance s ! unat vert + 1 in
            if current_distance < min_distance s then
              visit vert tos
                (s\<lparr>min_distance := current_distance, min_distance_ancestor := to\<rparr>)
            else visit vert tos s)
         else visit vert tos s)
      else Inl BadIndex)"

text \<open>
  The \<open>while (!queue.empty())\<close> loop. On a state no query can produce (a queued vertex
  without a colour, on a cycle) it need not end, so the result is an option and \<open>None\<close>
  means that the loop runs forever.
\<close>

partial_function (option) bfs :: "uint list list \<Rightarrow> bfs_state \<Rightarrow> (error + bfs_state) option" where
  "bfs adj s =
     (case queue s of
        [] \<Rightarrow> Some (Inr s)
      | vert # rest \<Rightarrow>
          if unat vert < length adj then
            (case visit vert (adj ! unat vert) (s\<lparr>queue := rest\<rparr>) of
               Inl e \<Rightarrow> Some (Inl e)
             | Inr s' \<Rightarrow> bfs adj s')
          else Some (Inl BadIndex))"

definition ancestor_length :: "digraph \<Rightarrow> uint list \<Rightarrow> uint list \<Rightarrow> (error + uint \<times> uint) option" where
  "ancestor_length g subset_a subset_b =
     (case seed_a (id_vert_map g) subset_a (replicate (size_digraph g) 0, []) of
        Inl e \<Rightarrow> Some (Inl e)
      | Inr cq \<Rightarrow>
          (case seed_b (id_vert_map g) subset_b cq of
             Inl e \<Rightarrow> Some (Inl e)
           | Inr (Return r) \<Rightarrow> Some (Inr r)
           | Inr (Continue (col, q)) \<Rightarrow>
               (case bfs (graph g)
                       \<lparr>color = col, distance = replicate (size_digraph g) 0, queue = q,
                        min_distance = - 1, min_distance_ancestor = 0\<rparr> of
                  None \<Rightarrow> None
                | Some (Inl e) \<Rightarrow> Some (Inl e)
                | Some (Inr s) \<Rightarrow>
                    if unat (min_distance_ancestor s) < length (vert_id_map g) then
                      Some (Inr (vert_id_map g ! unat (min_distance_ancestor s), min_distance s))
                    else Some (Inl BadIndex))))"

text \<open>The four entry points; a \<open>std::set\<close> is handed over in ascending order.\<close>

definition sca_length :: "digraph \<Rightarrow> uint \<Rightarrow> uint \<Rightarrow> (error + uint) option" where
  "sca_length g v w = map_option (map_sum id snd) (ancestor_length g [v] [w])"

definition sca_ancestor :: "digraph \<Rightarrow> uint \<Rightarrow> uint \<Rightarrow> (error + uint) option" where
  "sca_ancestor g v w = map_option (map_sum id fst) (ancestor_length g [v] [w])"

definition length_subset :: "digraph \<Rightarrow> uint set \<Rightarrow> uint set \<Rightarrow> (error + uint) option" where
  "length_subset g subset_a subset_b =
     map_option (map_sum id snd)
       (ancestor_length g (sorted_list_of_set subset_a) (sorted_list_of_set subset_b))"

definition ancestor_subset :: "digraph \<Rightarrow> uint set \<Rightarrow> uint set \<Rightarrow> (error + uint) option" where
  "ancestor_subset g subset_a subset_b =
     map_option (map_sum id fst)
       (ancestor_length g (sorted_list_of_set subset_a) (sorted_list_of_set subset_b))"

text \<open>Bulk insertion, as the constructor of \<open>WordNet\<close> does it: one \<open>add_edge\<close> per pair.\<close>

fun add_edges :: "(uint \<times> uint) list \<Rightarrow> digraph \<Rightarrow> error + digraph" where
  "add_edges [] g = Inr g"
| "add_edges ((v, w) # es) g =
     (case add_edge v w g of Inl e \<Rightarrow> Inl e | Inr g' \<Rightarrow> add_edges es g')"

declare bfs.simps [code]

section \<open>WordNet and Outcast\<close>









text \<open>
  The quantity of the specification: a noun's sum of distances to every other noun of
  the group, a sum of integers, each distance asked from the noun to the other one.
  (\<open>Word.uint\<close> reads a word as an integer.)
\<close>

definition distance_to :: "(string \<Rightarrow> string \<Rightarrow> (error + uint) option) \<Rightarrow> string \<Rightarrow> string \<Rightarrow> int" where
  "distance_to d w u = (case d w u of Some (Inr k) \<Rightarrow> Word.uint k | _ \<Rightarrow> 0)"

definition distance_sum :: "(string \<Rightarrow> string \<Rightarrow> (error + uint) option) \<Rightarrow> string set \<Rightarrow> string \<Rightarrow> int" where
  "distance_sum d nouns w = (\<Sum>u \<in> nouns - {w}. distance_to d w u)"

text \<open>
  The quantity the source computes instead: the distance of a pair is asked once, with the
  smaller noun first, and a noun's distances are added in \<open>unsigned\<close> arithmetic.
\<close>

definition asked_distance :: "(string \<Rightarrow> string \<Rightarrow> (error + uint) option) \<Rightarrow> string \<Rightarrow> string \<Rightarrow> uint" where
  "asked_distance d u w =
     (case (if u < w then d u w else d w u) of Some (Inr k) \<Rightarrow> k | _ \<Rightarrow> 0)"

definition unsigned_total :: "(string \<Rightarrow> string \<Rightarrow> (error + uint) option) \<Rightarrow> string set \<Rightarrow> string \<Rightarrow> uint" where
  "unsigned_total d nouns w = (\<Sum>u \<in> nouns - {w}. asked_distance d u w)"


section \<open>Paths\<close>

text \<open>
  \<open>walk g v n y\<close>: a directed path of \<open>n\<close> edges leads from \<open>v\<close> to \<open>y\<close>, in external ids,
  read off \<open>get_neighbours\<close>.
\<close>

fun walk :: "digraph \<Rightarrow> uint \<Rightarrow> nat \<Rightarrow> uint \<Rightarrow> bool" where
  "walk g v 0 y = (v = y)"
| "walk g v (Suc n) y =
     (case get_neighbours g v of Inl e \<Rightarrow> False | Inr ns \<Rightarrow> list_ex (\<lambda>u. walk g u n y) ns)"

definition common_ancestor :: "digraph \<Rightarrow> uint list \<Rightarrow> uint list \<Rightarrow> uint \<Rightarrow> bool" where
  "common_ancestor g subset_a subset_b y \<longleftrightarrow>
     (\<exists>a \<in> set subset_a. \<exists>n. walk g a n y) \<and> (\<exists>b \<in> set subset_b. \<exists>n. walk g b n y)"

text \<open>The same edges on dense indices, as the search follows them.\<close>

definition dedges :: "uint list list \<Rightarrow> (uint \<times> uint) set" where
  "dedges adj = {(i, j). unat i < length adj \<and> j \<in> set (adj ! unat i)}"

text \<open>
  The loop invariant of the search when the two colours can never meet: \<open>RA\<close> and \<open>RB\<close>
  bound the vertices coloured 1 and 2, and no meeting has been recorded.
\<close>

definition sep_inv :: "uint list list \<Rightarrow> uint set \<Rightarrow> uint set \<Rightarrow> bfs_state \<Rightarrow> bool" where
  "sep_inv adj RA RB s \<longleftrightarrow>
     length (color s) = length adj \<and> length (distance s) = length adj \<and>
     (\<forall>q \<in> set (queue s). unat q < length adj \<and> color s ! unat q \<noteq> 0) \<and>
     (\<forall>v. unat v < length adj \<longrightarrow>
        (color s ! unat v = 0 \<or> color s ! unat v = 1 \<and> v \<in> RA \<or> color s ! unat v = 2 \<and> v \<in> RB)) \<and>
     min_distance s = - 1 \<and> min_distance_ancestor s = 0"

text \<open>The part of it that every query keeps: the shape of the state of the search.\<close>

definition bfs_wf :: "uint list list \<Rightarrow> bfs_state \<Rightarrow> bool" where
  "bfs_wf adj s \<longleftrightarrow>
     length (color s) = length adj \<and> length (distance s) = length adj \<and>
     (\<forall>q \<in> set (queue s). unat q < length adj \<and> color s ! unat q \<noteq> 0) \<and>
     unat (min_distance_ancestor s) < length adj"

definition bfs_measure :: "bfs_state \<Rightarrow> nat" where
  "bfs_measure s = 2 * card {k. k < length (color s) \<and> color s ! k = 0} + length (queue s)"

section \<open>Example digraphs\<close>

text \<open>
  Edges \<open>1 \<rightarrow> 3\<close> and \<open>2 \<rightarrow> 4\<close>, inserted after \<open>reset_graph_size(4)\<close>: two trees
  without a common vertex.
\<close>

definition two_trees :: digraph where
  "two_trees = projr (add_edges [(1, 3), (2, 4)] (reset_graph_size 4 empty_digraph))"

text \<open>
  A rooted DAG with root 20: \<open>10 \<rightarrow> 20\<close>, \<open>10 \<rightarrow> 11 \<rightarrow> 12 \<rightarrow> 30\<close>,
  \<open>50 \<rightarrow> 51 \<rightarrow> 52 \<rightarrow> 30\<close> and \<open>30 \<rightarrow> 20\<close>, inserted after \<open>reset_graph_size(8)\<close>.
\<close>

definition uneven_edges :: "(uint \<times> uint) list" where
  "uneven_edges =
     [(10, 20), (10, 11), (11, 12), (12, 30), (50, 51), (51, 52), (52, 30), (30, 20)]"

definition uneven_dag :: digraph where
  "uneven_dag = projr (add_edges uneven_edges (reset_graph_size 8 empty_digraph))"






section \<open>The representation invariant\<close>

lemma distinct_uint_length: "distinct (xs :: uint list) \<Longrightarrow> length xs \<le> 2 ^ 32"
proof -
  assume d: "distinct xs"
  have "length xs = card (set xs)" using d by (simp add: distinct_card)
  also have "\<dots> \<le> card (UNIV :: uint set)" by (rule card_mono) simp_all
  also have "\<dots> = 2 ^ 32" by (simp add: card_word)
  finally show ?thesis .
qed

lemma unat_of_nat_uint: "n < 2 ^ 32 \<Longrightarrow> unat (of_nat n :: uint) = n"
  by (simp add: unat_of_nat)

lemma wf_lookup_None: 
  assumes "wf_digraph g" "id_vert_map g v = None"
  shows "v \<notin> set (vert_id_map g)"
proof
  assume "v \<in> set (vert_id_map g)"
  then obtain j where j: "j < length (vert_id_map g)" "vert_id_map g ! j = v"
    by (auto simp: in_set_conv_nth)
  have "distinct (vert_id_map g)" using assms(1) by (simp add: wf_digraph_def)
  then have "length (vert_id_map g) \<le> 2 ^ 32" by (rule distinct_uint_length)
  then have "unat (of_nat j :: uint) = j" using j(1) by (simp add: unat_of_nat_uint)
  then have "id_vert_map g v = Some (of_nat j)" using assms(1) j by (simp add: wf_digraph_def)
  then show False using assms(2) by simp
qed

lemma wf_new_index:
  assumes "wf_digraph g" "id_vert_map g v = None"
  shows "unat (of_nat (length (vert_id_map g)) :: uint) = length (vert_id_map g)"
proof -
  have "distinct (vert_id_map g @ [v])" using assms wf_lookup_None by (simp add: wf_digraph_def)
  then have "length (vert_id_map g @ [v]) \<le> 2 ^ 32" by (rule distinct_uint_length)
  then show ?thesis by (simp add: unat_of_nat_uint)
qed

lemma get_or_add_vert_old: "id_vert_map g v = Some i \<Longrightarrow> get_or_add_vert v g = (i, g)"
  by (simp add: get_or_add_vert_def)

lemma wf_get_or_add_vert:
  assumes "wf_digraph g" "get_or_add_vert v g = (i, g')"
  shows "wf_digraph g'"
proof (cases "id_vert_map g v")
  case (Some j)
  then show ?thesis using assms by (simp add: get_or_add_vert_def)
next
  case None
  let ?n = "length (vert_id_map g)"
  have un: "unat (of_nat ?n :: uint) = ?n" using assms(1) None by (rule wf_new_index)
  have nin: "v \<notin> set (vert_id_map g)" using assms(1) None by (rule wf_lookup_None)
  have g': "g' = g\<lparr>id_vert_map := (id_vert_map g)(v \<mapsto> of_nat ?n),
             vert_id_map := vert_id_map g @ [v], graph := graph g @ [[]],
             capacity := (if length (graph g) = capacity g then grown_capacity (capacity g)
                          else capacity g)\<rparr>"
    using assms(2) None
    by (auto simp: get_or_add_vert_def emplace_back_row_def reallocates_def)
  have wf: "length (graph g) = ?n" "distinct (vert_id_map g)"
    "\<And>x i. id_vert_map g x = Some i \<longleftrightarrow> unat i < ?n \<and> vert_id_map g ! unat i = x"
    "\<And>row n. row \<in> set (graph g) \<Longrightarrow> n \<in> set row \<Longrightarrow> unat n < ?n"
    "length (graph g) \<le> capacity g"
    using assms(1) by (auto simp: wf_digraph_def)
  have m: "(id_vert_map g' x = Some k) \<longleftrightarrow> (unat k < length (vert_id_map g') \<and> vert_id_map g' ! unat k = x)" for x k
  proof (cases "unat k < ?n")
    case True
    then have "vert_id_map g ! unat k \<in> set (vert_id_map g)" by simp
    then have "vert_id_map g ! unat k \<noteq> v" using nin by auto
    moreover have "k \<noteq> of_nat ?n" using True un by auto
    ultimately show ?thesis using True wf(3)[of x k] by (auto simp: g' nth_append)
  next
    case False
    show ?thesis
    proof (cases "unat k = ?n")
      case True
      then have "k = of_nat ?n" using un by (simp add: word_unat_eq_iff)
      then show ?thesis using True wf(3)[of x k] by (auto simp: g' nth_append)
    next
      case F2: False
      then have "k \<noteq> of_nat ?n" using un by auto
      then show ?thesis using False F2 wf(3)[of x k] by (auto simp: g' nth_append)
    qed
  qed
  show ?thesis unfolding wf_digraph_def
  proof (intro conjI allI)
    show "length (graph g') = length (vert_id_map g')" by (simp add: g' wf(1))
    show "distinct (vert_id_map g')" using wf(2) nin by (simp add: g')
    show "(id_vert_map g' x = Some k) = (unat k < length (vert_id_map g') \<and> vert_id_map g' ! unat k = x)" for x k
      by (rule m)
    show "\<forall>row\<in>set (graph g'). \<forall>n\<in>set row. unat n < length (vert_id_map g')"
      using wf(4) by (auto simp: g' less_Suc_eq)
    show "length (graph g') \<le> capacity g'"
      using wf(5) by (auto simp: g' grown_capacity_def max_def)
  qed
qed

lemma get_or_add_vert_props:
  assumes "wf_digraph g" "get_or_add_vert v g = (i, g')"
  shows "id_vert_map g' v = Some i"
    and "\<exists>ext. vert_id_map g' = vert_id_map g @ ext \<and> graph g' = graph g @ map (\<lambda>_. []) ext"
    and "capacity g \<le> capacity g'"
    and "\<And>x j. id_vert_map g x = Some j \<Longrightarrow> id_vert_map g' x = Some j"
    and "dom (id_vert_map g') = insert v (dom (id_vert_map g))"
proof -
  show "id_vert_map g' v = Some i" using assms(2)
    by (auto simp: get_or_add_vert_def emplace_back_row_def split: option.splits)
  show "\<exists>ext. vert_id_map g' = vert_id_map g @ ext \<and> graph g' = graph g @ map (\<lambda>_. []) ext"
    using assms(2) by (auto simp: get_or_add_vert_def emplace_back_row_def split: option.splits)
  show "capacity g \<le> capacity g'" using assms(2)
    by (auto simp: get_or_add_vert_def emplace_back_row_def grown_capacity_def split: option.splits)
  show "\<And>x j. id_vert_map g x = Some j \<Longrightarrow> id_vert_map g' x = Some j"
    using assms(2) by (auto simp: get_or_add_vert_def emplace_back_row_def split: option.splits)
  show "dom (id_vert_map g') = insert v (dom (id_vert_map g))"
    using assms(2) by (auto simp: get_or_add_vert_def emplace_back_row_def split: option.splits)
qed

section \<open>Edges and neighbours on well-formed digraphs\<close>

lemma to_ids_in_range:
  "\<forall>n \<in> set ns. unat n < length vim \<Longrightarrow> to_ids vim ns = Inr (map (\<lambda>n. vim ! unat n) ns)"
  by (induction ns) auto


lemma wf_row_in_range:
  "wf_digraph g \<Longrightarrow> k < length (graph g) \<Longrightarrow> \<forall>n \<in> set (graph g ! k). unat n < length (vert_id_map g)"
  by (auto simp: wf_digraph_def)

lemma wf_lookup_in_range:
  "wf_digraph g \<Longrightarrow> id_vert_map g x = Some i \<Longrightarrow> unat i < length (graph g)"
  by (simp add: wf_digraph_def)

lemma wf_lookup_nth:
  "wf_digraph g \<Longrightarrow> id_vert_map g x = Some i \<Longrightarrow> vert_id_map g ! unat i = x"
  by (simp add: wf_digraph_def)

lemma wf_get_neighbours:
  assumes "wf_digraph g"
  shows "get_neighbours g v =
     (case id_vert_map g v of None \<Rightarrow> Inr []
      | Some i \<Rightarrow> Inr (map (\<lambda>n. vert_id_map g ! unat n) (graph g ! unat i)))"
proof (cases "id_vert_map g v")
  case None
  then show ?thesis by (simp add: get_neighbours_def)
next
  case (Some i)
  have r: "unat i < length (graph g)" using assms Some by (rule wf_lookup_in_range)
  then have "\<forall>n \<in> set (graph g ! unat i). unat n < length (vert_id_map g)"
    using assms by (simp add: wf_row_in_range)
  then show ?thesis using Some r by (simp add: get_neighbours_def to_ids_in_range)
qed

lemma wf_graph_update:
  assumes "wf_digraph g" "unat iw < length (vert_id_map g)"
  shows "wf_digraph (g\<lparr>graph := (graph g)[k := graph g ! k @ [iw]]\<rparr>)"
proof -
  have rows: "\<forall>row \<in> set (graph g). \<forall>n \<in> set row. unat n < length (vert_id_map g)"
    using assms(1) by (simp add: wf_digraph_def)
  have "\<forall>n \<in> set row. unat n < length (vert_id_map g)"
    if "row \<in> set ((graph g)[k := graph g ! k @ [iw]])" for row
  proof -
    from that have "row = graph g ! k @ [iw] \<and> k < length (graph g) \<or> row \<in> set (graph g)"
      by (metis in_set_conv_nth length_list_update nth_list_update_eq nth_list_update_neq)
    then show ?thesis
    proof
      assume a: "row = graph g ! k @ [iw] \<and> k < length (graph g)"
      then have "graph g ! k \<in> set (graph g)" by simp
      then have "\<forall>n \<in> set (graph g ! k). unat n < length (vert_id_map g)" using rows by blast
      then show ?thesis using a assms(2) by auto
    next
      assume "row \<in> set (graph g)"
      then show ?thesis using rows by blast
    qed
  qed
  then show ?thesis using assms(1) by (simp add: wf_digraph_def)
qed

text \<open>What add_edge does on a well-formed digraph, step by step.\<close>

lemma wf_add_edge:
  assumes wf: "wf_digraph g"
  obtains iv g1 iw g2 where
    "get_or_add_vert v g = (iv, g1)" "get_or_add_vert w g1 = (iw, g2)"
    "wf_digraph g1" "wf_digraph g2" "unat iv < length (graph g1)"
    "add_edge v w g =
       (if id_vert_map g1 w = None \<and> reallocates g1 then Inl Dangling
        else Inr (g2\<lparr>graph := (graph g2)[unat iv := graph g2 ! unat iv @ [iw]]\<rparr>))"
    "wf_digraph (g2\<lparr>graph := (graph g2)[unat iv := graph g2 ! unat iv @ [iw]]\<rparr>)"
proof -
  obtain iv g1 where 1: "get_or_add_vert v g = (iv, g1)" by (cases "get_or_add_vert v g")
  obtain iw g2 where 2: "get_or_add_vert w g1 = (iw, g2)" by (cases "get_or_add_vert w g1")
  have wf1: "wf_digraph g1" using wf 1 by (rule wf_get_or_add_vert)
  have wf2: "wf_digraph g2" using wf1 2 by (rule wf_get_or_add_vert)
  have "id_vert_map g1 v = Some iv" using wf 1 by (rule get_or_add_vert_props)
  then have r: "unat iv < length (graph g1)" using wf1 by (simp add: wf_lookup_in_range)
  have "id_vert_map g2 w = Some iw" using wf1 2 by (rule get_or_add_vert_props)
  then have "unat iw < length (vert_id_map g2)" using wf2 by (simp add: wf_digraph_def)
  then have wf3: "wf_digraph (g2\<lparr>graph := (graph g2)[unat iv := graph g2 ! unat iv @ [iw]]\<rparr>)"
    using wf2 by (simp add: wf_graph_update)
  have "add_edge v w g =
       (if id_vert_map g1 w = None \<and> reallocates g1 then Inl Dangling
        else Inr (g2\<lparr>graph := (graph g2)[unat iv := graph g2 ! unat iv @ [iw]]\<rparr>))"
    using 1 2 r by (simp add: add_edge_def)
  then show thesis using that[OF 1 2 wf1 wf2 r _ wf3] by blast
qed

lemma wf_empty_digraph: "wf_digraph empty_digraph"
  by (simp add: wf_digraph_def empty_digraph_def)

lemma wf_reset_graph_size: "wf_digraph g \<Longrightarrow> wf_digraph (reset_graph_size n g)"
  by (auto simp: wf_digraph_def reset_graph_size_def)

lemma add_edge_preserves_wf:
  assumes "wf_digraph g" "add_edge v w g = Inr g'" shows "wf_digraph g'"
proof -
  obtain iv g1 iw g2 where s:
    "get_or_add_vert v g = (iv, g1)" "get_or_add_vert w g1 = (iw, g2)"
    "wf_digraph g1" "wf_digraph g2" "unat iv < length (graph g1)"
    "add_edge v w g =
       (if id_vert_map g1 w = None \<and> reallocates g1 then Inl Dangling
        else Inr (g2\<lparr>graph := (graph g2)[unat iv := graph g2 ! unat iv @ [iw]]\<rparr>))"
    "wf_digraph (g2\<lparr>graph := (graph g2)[unat iv := graph g2 ! unat iv @ [iw]]\<rparr>)"
    using wf_add_edge[OF assms(1), of v w] by metis
  have "g' = g2\<lparr>graph := (graph g2)[unat iv := graph g2 ! unat iv @ [iw]]\<rparr>"
    using s(6) assms(2) by (simp split: if_splits)
  then show ?thesis using s(7) by simp
qed

text \<open>
  \<open>add_edge\<close> is defined exactly when registering \<open>w\<close> does not reallocate \<open>graph\<close>;
  room for two more rows is enough.
\<close>

lemma add_edge_defined_iff:
  assumes "wf_digraph g"
  shows "(\<exists>g'. add_edge v w g = Inr g') \<longleftrightarrow>
         \<not> (id_vert_map (snd (get_or_add_vert v g)) w = None \<and>
            reallocates (snd (get_or_add_vert v g)))"
    and "add_edge v w g = Inl Dangling \<longleftrightarrow>
         id_vert_map (snd (get_or_add_vert v g)) w = None \<and>
         reallocates (snd (get_or_add_vert v g))"
proof -
  obtain iv g1 iw g2 where s:
    "get_or_add_vert v g = (iv, g1)" "get_or_add_vert w g1 = (iw, g2)"
    "wf_digraph g1" "wf_digraph g2" "unat iv < length (graph g1)"
    "add_edge v w g =
       (if id_vert_map g1 w = None \<and> reallocates g1 then Inl Dangling
        else Inr (g2\<lparr>graph := (graph g2)[unat iv := graph g2 ! unat iv @ [iw]]\<rparr>))"
    "wf_digraph (g2\<lparr>graph := (graph g2)[unat iv := graph g2 ! unat iv @ [iw]]\<rparr>)"
    using wf_add_edge[OF assms, of v w] by metis
  show "(\<exists>g'. add_edge v w g = Inr g') \<longleftrightarrow>
         \<not> (id_vert_map (snd (get_or_add_vert v g)) w = None \<and>
            reallocates (snd (get_or_add_vert v g)))"
    using s(1) s(6) by simp
  show "add_edge v w g = Inl Dangling \<longleftrightarrow>
         id_vert_map (snd (get_or_add_vert v g)) w = None \<and>
         reallocates (snd (get_or_add_vert v g))"
    using s(1) s(6) by simp
qed

lemma add_edge_with_room:
  assumes wf: "wf_digraph g" and room: "length (graph g) + 2 \<le> capacity g"
  shows "\<exists>g'. add_edge v w g = Inr g'"
proof -
  have "length (graph (snd (get_or_add_vert v g))) \<le> Suc (length (graph g))"
    "capacity g \<le> capacity (snd (get_or_add_vert v g))"
    by (auto simp: get_or_add_vert_def emplace_back_row_def grown_capacity_def split: option.splits)
  then have "\<not> reallocates (snd (get_or_add_vert v g))" using room by (simp add: reallocates_def)
  then show ?thesis using add_edge_defined_iff(1)[OF wf, of v w] by simp
qed

lemma constructed_wf: "constructed g \<Longrightarrow> wf_digraph g"
  by (induction rule: constructed.induct)
     (auto intro: wf_empty_digraph wf_reset_graph_size add_edge_preserves_wf)

lemma wf_card_dom:
  assumes "wf_digraph g" shows "card (dom (id_vert_map g)) = length (vert_id_map g)"
proof -
  have "dom (id_vert_map g) = set (vert_id_map g)"
  proof (intro set_eqI iffI)
    fix x assume "x \<in> dom (id_vert_map g)"
    then obtain i where "id_vert_map g x = Some i" by auto
    then show "x \<in> set (vert_id_map g)" using assms by (auto simp: wf_digraph_def)
  next
    fix x assume "x \<in> set (vert_id_map g)"
    then show "x \<in> dom (id_vert_map g)" using assms wf_lookup_None by fastforce
  qed
  then show ?thesis using assms by (simp add: wf_digraph_def distinct_card)
qed

text \<open>Where \<open>add_edge\<close> is defined it appends the edge, as the interface promises.\<close>

lemma add_edge_neighbours:
  assumes wf: "wf_digraph g" and ok: "add_edge a b g = Inr g'"
  shows "\<exists>ns. get_neighbours g a = Inr ns \<and> get_neighbours g' a = Inr (ns @ [b]) \<and>
           a \<in> dom (id_vert_map g') \<and> b \<in> dom (id_vert_map g')"
proof -
  obtain iv g1 iw g2 where s:
    "get_or_add_vert a g = (iv, g1)" "get_or_add_vert b g1 = (iw, g2)"
    "wf_digraph g1" "wf_digraph g2" "unat iv < length (graph g1)"
    "add_edge a b g =
       (if id_vert_map g1 b = None \<and> reallocates g1 then Inl Dangling
        else Inr (g2\<lparr>graph := (graph g2)[unat iv := graph g2 ! unat iv @ [iw]]\<rparr>))"
    "wf_digraph (g2\<lparr>graph := (graph g2)[unat iv := graph g2 ! unat iv @ [iw]]\<rparr>)"
    using wf_add_edge[OF wf, of a b] by metis
  let ?g' = "g2\<lparr>graph := (graph g2)[unat iv := graph g2 ! unat iv @ [iw]]\<rparr>"
  have g': "g' = ?g'" using s(6) ok by (simp split: if_splits)
  have a1: "id_vert_map g1 a = Some iv" using wf s(1) by (rule get_or_add_vert_props)
  have a2: "id_vert_map g2 a = Some iv" using get_or_add_vert_props(4)[OF s(3) s(2) a1] .
  have b2: "id_vert_map g2 b = Some iw" using s(3) s(2) by (rule get_or_add_vert_props)
  obtain e1 where e1: "vert_id_map g1 = vert_id_map g @ e1" "graph g1 = graph g @ map (\<lambda>_. []) e1"
    using get_or_add_vert_props(2)[OF wf s(1)] by blast
  obtain e2 where e2: "vert_id_map g2 = vert_id_map g1 @ e2" "graph g2 = graph g1 @ map (\<lambda>_. []) e2"
    using get_or_add_vert_props(2)[OF s(3) s(2)] by blast
  have r2: "unat iv < length (graph g2)" using s(5) e2 by simp
  have row2: "graph g2 ! unat iv = graph g1 ! unat iv" using s(5) e2 by (simp add: nth_append)
  have nb: "vert_id_map g2 ! unat iw = b" using s(4) b2 by (rule wf_lookup_nth)
  have new: "get_neighbours ?g' a =
      Inr (map (\<lambda>n. vert_id_map g2 ! unat n) (graph g1 ! unat iv) @ [b])"
    using wf_get_neighbours[OF s(7), of a] a2 r2 row2 nb by simp
  have old: "get_neighbours g a = Inr (map (\<lambda>n. vert_id_map g2 ! unat n) (graph g1 ! unat iv))"
  proof (cases "id_vert_map g a")
    case None
    then have "iv = of_nat (length (vert_id_map g))" "graph g1 = graph g @ [[]]"
      using s(1) by (auto simp: get_or_add_vert_def emplace_back_row_def)
    moreover have "unat (of_nat (length (vert_id_map g)) :: uint) = length (graph g)"
      using wf None wf_new_index[OF wf None] by (simp add: wf_digraph_def)
    ultimately have "graph g1 ! unat iv = []" by (simp add: nth_append)
    then show ?thesis using None by (simp add: get_neighbours_def)
  next
    case (Some i)
    then have same: "iv = i" "g1 = g" using s(1) by (auto simp: get_or_add_vert_def)
    have ri: "unat i < length (graph g)" using wf Some by (rule wf_lookup_in_range)
    have "\<forall>n \<in> set (graph g ! unat i). unat n < length (vert_id_map g)"
      using wf ri by (rule wf_row_in_range)
    then have "map (\<lambda>n. vert_id_map g2 ! unat n) (graph g ! unat i)
        = map (\<lambda>n. vert_id_map g ! unat n) (graph g ! unat i)"
      using e2 same by (simp add: nth_append)
    then show ?thesis using wf_get_neighbours[OF wf, of a] Some same by simp
  qed
  show ?thesis unfolding g' using old new a2 b2 by auto
qed

section \<open>Properties of the digraph interface\<close>

lemma add_edges_constructed:
  "constructed g \<Longrightarrow> add_edges es g = Inr g' \<Longrightarrow> constructed g'"
proof (induction es arbitrary: g)
  case Nil
  then show ?case by simp
next
  case (Cons e es)
  obtain v w where e: "e = (v, w)" by (cases e)
  show ?case
  proof (cases "add_edge v w g")
    case (Inl err)
    then show ?thesis using Cons.prems(2) e by simp
  next
    case (Inr g1)
    then have "constructed g1" using Cons.prems(1) by (rule constructed_edge[rotated])
    moreover have "add_edges es g1 = Inr g'" using Cons.prems(2) e Inr by simp
    ultimately show ?thesis by (rule Cons.IH)
  qed
qed

lemma constructed_two_trees: "constructed two_trees"
proof -
  have "\<not> isl (add_edges [(1, 3), (2, 4)] (reset_graph_size 4 empty_digraph))" by code_simp
  then have "add_edges [(1, 3), (2, 4)] (reset_graph_size 4 empty_digraph) = Inr two_trees"
    by (simp add: two_trees_def)
  then show ?thesis
    using add_edges_constructed[OF constructed_reserve[OF constructed_empty]] by blast
qed

lemma constructed_uneven_dag: "constructed uneven_dag"
proof -
  have "\<not> isl (add_edges uneven_edges (reset_graph_size 8 empty_digraph))" by code_simp
  then have "add_edges uneven_edges (reset_graph_size 8 empty_digraph) = Inr uneven_dag"
    by (simp add: uneven_dag_def)
  then show ?thesis
    using add_edges_constructed[OF constructed_reserve[OF constructed_empty]] by blast
qed

text \<open>
  C5 fails on the code: the first edge of a default digraph. Registering 1 fills the one
  row the storage holds, the reference to that row is bound, registering 3 reallocates, and
  the edge is written through the dangling reference; what \<open>get_neighbours\<close> returns
  afterwards is undefined.
\<close>

theorem add_edge_first_edge_dangling:
  "get_neighbours empty_digraph 1 = Inr [] \<and> add_edge 1 3 empty_digraph = Inl Dangling"
  by code_simp

text \<open>
  C6: on every constructed digraph the two index maps are inverse to each other: the
  vertex of a registered id carries that id, every dense index below the vertex count is
  the vertex of its id, and the adjacency table, the forward map and the inverse map have
  the same number of entries.
\<close>

theorem index_maps_bijection:
  assumes "constructed g"
  shows "(\<forall>x i. id_vert_map g x = Some i \<longrightarrow>
            unat i < length (vert_id_map g) \<and> vert_id_map g ! unat i = x) \<and>
         (\<forall>k < size_digraph g. \<exists>i. unat i = k \<and> id_vert_map g (vert_id_map g ! k) = Some i) \<and>
         card (dom (id_vert_map g)) = length (vert_id_map g) \<and>
         length (vert_id_map g) = length (graph g)"
proof -
  have wf: "wf_digraph g" using assms by (rule constructed_wf)
  have 1: "\<forall>x i. id_vert_map g x = Some i \<longrightarrow>
            unat i < length (vert_id_map g) \<and> vert_id_map g ! unat i = x"
    using wf by (simp add: wf_digraph_def)
  have len: "length (vert_id_map g) = length (graph g)" using wf by (simp add: wf_digraph_def)
  have 2: "\<exists>i. unat i = k \<and> id_vert_map g (vert_id_map g ! k) = Some i" if "k < size_digraph g" for k
  proof -
    have k: "k < length (vert_id_map g)" using that len by (simp add: size_digraph_def)
    have "distinct (vert_id_map g)" using wf by (simp add: wf_digraph_def)
    then have "length (vert_id_map g) \<le> 2 ^ 32" by (rule distinct_uint_length)
    then have u: "unat (of_nat k :: uint) = k" using k by (simp add: unat_of_nat_uint)
    then have "id_vert_map g (vert_id_map g ! k) = Some (of_nat k)"
      using wf k by (simp add: wf_digraph_def)
    then show ?thesis using u by blast
  qed
  show ?thesis using 1 2 len wf_card_dom[OF wf] by blast
qed

theorem index_maps_bijection_witness:
  "constructed two_trees \<and> id_vert_map two_trees 2 = Some 2 \<and> vert_id_map two_trees ! unat (2 :: uint) = 2 \<and>
   card (dom (id_vert_map two_trees)) = 4 \<and> length (graph two_trees) = 4"
proof -
  have c: "constructed two_trees" by (rule constructed_two_trees)
  have l: "id_vert_map two_trees 2 = Some 2" by code_simp
  have n: "length (vert_id_map two_trees) = 4" by code_simp
  have b: "(\<forall>x i. id_vert_map two_trees x = Some i \<longrightarrow>
            unat i < length (vert_id_map two_trees) \<and> vert_id_map two_trees ! unat i = x) \<and>
         card (dom (id_vert_map two_trees)) = length (vert_id_map two_trees) \<and>
         length (vert_id_map two_trees) = length (graph two_trees)"
    using index_maps_bijection[OF c] by blast
  then have "vert_id_map two_trees ! unat (2 :: uint) = 2" using l by blast
  then show ?thesis using b c l n by presburger
qed

text \<open>
  C7 fails on the code: \<open>add_edge\<close> has a failure condition. The two trees fill their
  four reserved rows; an edge from the registered id 1 to the new id 6 reallocates \<open>graph\<close>
  under the row reference and is undefined.
\<close>

theorem add_edge_full_capacity_dangling:
  "size_digraph two_trees = 4 \<and> capacity two_trees = 4 \<and> id_vert_map two_trees 6 = None \<and>
   add_edge 1 6 two_trees = Inl Dangling"
  by code_simp

text \<open>The other half of C7 holds: \<open>get_neighbours\<close> never fails on a constructed digraph.\<close>

lemma get_neighbours_total:
  assumes "constructed g"
  shows "(id_vert_map g v = None \<longrightarrow> get_neighbours g v = Inr []) \<and>
         (\<exists>ns. get_neighbours g u = Inr ns)"
proof -
  have wf: "wf_digraph g" using assms by (rule constructed_wf)
  have 1: "id_vert_map g v = None \<longrightarrow> get_neighbours g v = Inr []"
    by (simp add: get_neighbours_def)
  have 2: "\<exists>ns. get_neighbours g u = Inr ns"
    using wf_get_neighbours[OF wf, of u] by (cases "id_vert_map g u") auto
  show ?thesis using 1 2 by blast
qed

section \<open>The search when the two sides cannot meet\<close>

lemma zeros_update:
  assumes "i < length col" "col ! i = 0" "c \<noteq> (0 :: cchar)"
  shows "Suc (card {k. k < length (col[i := c]) \<and> col[i := c] ! k = 0})
           = card {k. k < length col \<and> col ! k = 0}"
proof -
  let ?Z = "{k. k < length col \<and> col ! k = 0}"
  have "{k. k < length (col[i := c]) \<and> col[i := c] ! k = 0} = ?Z - {i}"
    using assms by (auto simp: nth_list_update)
  moreover have "finite ?Z" by simp
  moreover have "i \<in> ?Z" using assms by simp
  ultimately show ?thesis using card.remove[of ?Z i] by simp
qed

lemma sep_inv_colour_step:
  assumes closedA: "\<forall>(i, j) \<in> dedges adj. i \<in> RA \<longrightarrow> j \<in> RA"
    and closedB: "\<forall>(i, j) \<in> dedges adj. i \<in> RB \<longrightarrow> j \<in> RB"
    and inv: "sep_inv adj RA RB s"
    and to: "unat to < length adj" and vert: "unat vert < length adj"
    and c0: "color s ! unat to = 0" and cv: "color s ! unat vert \<noteq> 0"
    and e: "(vert, to) \<in> dedges adj"
  defines "s' \<equiv> s\<lparr>color := (color s)[unat to := color s ! unat vert],
                  distance := (distance s)[unat to := distance s ! unat vert + 1],
                  queue := queue s @ [to]\<rparr>"
  shows "sep_inv adj RA RB s'" and "bfs_measure s' < bfs_measure s"
    and "color s' ! unat vert = color s ! unat vert"
proof -
  have len: "length (color s) = length adj" "length (distance s) = length adj"
    using inv by (simp_all add: sep_inv_def)
  have ne: "unat to \<noteq> unat vert" using c0 cv by auto
  show cvs: "color s' ! unat vert = color s ! unat vert" using ne by (simp add: s'_def)
  have side: "color s ! unat v = 0 \<or> color s ! unat v = 1 \<and> v \<in> RA \<or> color s ! unat v = 2 \<and> v \<in> RB"
    if "unat v < length adj" for v using inv that by (simp add: sep_inv_def)
  have sv: "color s ! unat vert = 1 \<and> vert \<in> RA \<or> color s ! unat vert = 2 \<and> vert \<in> RB"
    using side[OF vert] cv by simp
  have sto: "color s ! unat vert = 1 \<and> to \<in> RA \<or> color s ! unat vert = 2 \<and> to \<in> RB"
    using sv e closedA closedB by auto
  have q: "\<forall>q \<in> set (queue s'). unat q < length adj \<and> color s' ! unat q \<noteq> 0"
  proof
    fix q assume "q \<in> set (queue s')"
    then have "q = to \<or> q \<in> set (queue s)" by (auto simp: s'_def)
    then show "unat q < length adj \<and> color s' ! unat q \<noteq> 0"
    proof
      assume "q = to"
      then show ?thesis using to cv len by (simp add: s'_def)
    next
      assume "q \<in> set (queue s)"
      then have qq: "unat q < length adj \<and> color s ! unat q \<noteq> 0" using inv by (simp add: sep_inv_def)
      then have "unat to \<noteq> unat q" using c0 by auto
      then have "color s' ! unat q = color s ! unat q" by (simp add: s'_def)
      then show ?thesis using qq by simp
    qed
  qed
  have sd: "color s' ! unat v = 0 \<or> color s' ! unat v = 1 \<and> v \<in> RA \<or> color s' ! unat v = 2 \<and> v \<in> RB"
    if v: "unat v < length adj" for v
  proof (cases "unat v = unat to")
    case True
    then have "v = to" by (simp add: word_unat_eq_iff)
    then show ?thesis using sto to len by (simp add: s'_def)
  next
    case False
    then show ?thesis using side[OF v] by (simp add: s'_def)
  qed
  show "sep_inv adj RA RB s'"
    unfolding sep_inv_def
  proof (intro conjI)
    show "length (color s') = length adj" using len by (simp add: s'_def)
    show "length (distance s') = length adj" using len by (simp add: s'_def)
    show "\<forall>q \<in> set (queue s'). unat q < length adj \<and> color s' ! unat q \<noteq> 0" by (rule q)
    show "\<forall>v. unat v < length adj \<longrightarrow>
        (color s' ! unat v = 0 \<or> color s' ! unat v = 1 \<and> v \<in> RA \<or> color s' ! unat v = 2 \<and> v \<in> RB)"
      using sd by blast
    show "min_distance s' = - 1" using inv by (simp add: sep_inv_def s'_def)
    show "min_distance_ancestor s' = 0" using inv by (simp add: sep_inv_def s'_def)
  qed
  have "Suc (card {k. k < length (color s') \<and> color s' ! k = 0})
           = card {k. k < length (color s) \<and> color s ! k = 0}"
    using zeros_update[of "unat to" "color s" "color s ! unat vert"] to len c0 cv
    by (simp add: s'_def)
  then show "bfs_measure s' < bfs_measure s" by (simp add: bfs_measure_def s'_def)
qed

lemma visit_sep:
  assumes closedA: "\<forall>(i, j) \<in> dedges adj. i \<in> RA \<longrightarrow> j \<in> RA"
    and closedB: "\<forall>(i, j) \<in> dedges adj. i \<in> RB \<longrightarrow> j \<in> RB"
    and disj: "RA \<inter> RB = {}"
    and rows: "\<forall>row \<in> set adj. \<forall>n \<in> set row. unat n < length adj"
    and vert: "unat vert < length adj"
  shows "sep_inv adj RA RB s \<Longrightarrow> color s ! unat vert \<noteq> 0 \<Longrightarrow> set tos \<subseteq> set (adj ! unat vert) \<Longrightarrow>
     \<exists>s'. visit vert tos s = Inr s' \<and> sep_inv adj RA RB s' \<and> bfs_measure s' \<le> bfs_measure s"
proof (induction tos arbitrary: s)
  case Nil
  then show ?case by simp
next
  case (Cons to tos)
  have len: "length (color s) = length adj" "length (distance s) = length adj"
    using Cons.prems(1) by (simp_all add: sep_inv_def)
  have tin: "to \<in> set (adj ! unat vert)" and sub: "set tos \<subseteq> set (adj ! unat vert)"
    using Cons.prems(3) by auto
  have e: "(vert, to) \<in> dedges adj" using tin vert by (simp add: dedges_def)
  have "adj ! unat vert \<in> set adj" using vert by simp
  then have to: "unat to < length adj" using rows tin by blast
  have rng: "unat to < length (color s) \<and> unat to < length (distance s) \<and>
         unat vert < length (color s) \<and> unat vert < length (distance s)"
    using to vert len by simp
  show ?case
  proof (cases "color s ! unat to = 0")
    case True
    let ?s1 = "s\<lparr>color := (color s)[unat to := color s ! unat vert],
                  distance := (distance s)[unat to := distance s ! unat vert + 1],
                  queue := queue s @ [to]\<rparr>"
    note st = sep_inv_colour_step[OF closedA closedB Cons.prems(1) to vert True Cons.prems(2) e]
    have cv1: "color ?s1 ! unat vert \<noteq> 0" using st(3) Cons.prems(2) by simp
    have "\<exists>s'. visit vert tos ?s1 = Inr s' \<and> sep_inv adj RA RB s' \<and>
        bfs_measure s' \<le> bfs_measure ?s1"
      by (rule Cons.IH[OF st(1) cv1 sub])
    then obtain s' where s': "visit vert tos ?s1 = Inr s'" "sep_inv adj RA RB s'"
        "bfs_measure s' \<le> bfs_measure ?s1"
      by blast
    have "visit vert (to # tos) s = visit vert tos ?s1" using rng True by simp
    then have "visit vert (to # tos) s = Inr s'" using s'(1) by simp
    moreover have "bfs_measure s' \<le> bfs_measure s" using s'(3) st(2) by linarith
    ultimately show ?thesis using s'(2) by blast
  next
    case False
    have side: "color s ! unat v = 0 \<or> color s ! unat v = 1 \<and> v \<in> RA \<or> color s ! unat v = 2 \<and> v \<in> RB"
      if "unat v < length adj" for v using Cons.prems(1) that by (simp add: sep_inv_def)
    have sv: "color s ! unat vert = 1 \<and> vert \<in> RA \<or> color s ! unat vert = 2 \<and> vert \<in> RB"
      using side[OF vert] Cons.prems(2) by simp
    then have sto: "color s ! unat vert = 1 \<and> to \<in> RA \<or> color s ! unat vert = 2 \<and> to \<in> RB"
      using e closedA closedB by auto
    have st: "color s ! unat to = 1 \<and> to \<in> RA \<or> color s ! unat to = 2 \<and> to \<in> RB"
      using side[OF to] False by simp
    have same: "color s ! unat to = color s ! unat vert" using sto st disj by auto
    have "visit vert (to # tos) s = visit vert tos s" using rng False same by simp
    then show ?thesis using Cons.IH[OF Cons.prems(1) Cons.prems(2) sub] by simp
  qed
qed

lemma sep_inv_pop:
  assumes "sep_inv adj RA RB s" "queue s = vert # rest"
  shows "sep_inv adj RA RB (s\<lparr>queue := rest\<rparr>)" "unat vert < length adj"
    "color (s\<lparr>queue := rest\<rparr>) ! unat vert \<noteq> 0"
    "bfs_measure (s\<lparr>queue := rest\<rparr>) < bfs_measure s"
  using assms by (simp_all add: sep_inv_def bfs_measure_def)

lemma bfs_sep:
  assumes closedA: "\<forall>(i, j) \<in> dedges adj. i \<in> RA \<longrightarrow> j \<in> RA"
    and closedB: "\<forall>(i, j) \<in> dedges adj. i \<in> RB \<longrightarrow> j \<in> RB"
    and disj: "RA \<inter> RB = {}"
    and rows: "\<forall>row \<in> set adj. \<forall>n \<in> set row. unat n < length adj"
  shows "sep_inv adj RA RB s \<Longrightarrow> \<exists>s'. bfs adj s = Some (Inr s') \<and> sep_inv adj RA RB s'"
proof (induction "bfs_measure s" arbitrary: s rule: less_induct)
  case less
  show ?case
  proof (cases "queue s")
    case Nil
    then have "bfs adj s = Some (Inr s)" by (subst bfs.simps) simp
    then show ?thesis using less.prems by simp
  next
    case (Cons vert rest)
    note p = sep_inv_pop[OF less.prems Cons]
    obtain s1 where s1: "visit vert (adj ! unat vert) (s\<lparr>queue := rest\<rparr>) = Inr s1"
        "sep_inv adj RA RB s1" "bfs_measure s1 \<le> bfs_measure (s\<lparr>queue := rest\<rparr>)"
      using visit_sep[OF closedA closedB disj rows p(2) p(1) p(3) subset_refl] by blast
    have "bfs_measure s1 < bfs_measure s" using s1(3) p(4) by simp
    then obtain s' where s': "bfs adj s1 = Some (Inr s')" "sep_inv adj RA RB s'"
      using less.hyps s1(2) by blast
    have "bfs adj s = bfs adj s1" using Cons p(2) s1(1) by (subst bfs.simps) simp
    then show ?thesis using s' by simp
  qed
qed

section \<open>The two seeding loops\<close>

lemma update2_not1: "k < length col \<Longrightarrow> col ! k \<noteq> 1 \<Longrightarrow> col[m := (2::cchar)] ! k \<noteq> 1"
  by (cases "m = k") simp_all

lemma ex_update2:
  "\<exists>k :: uint. ivm x = Some k \<and> unat k < length col \<and> col ! unat k \<noteq> 1 \<Longrightarrow>
   \<exists>k. ivm x = Some k \<and> unat k < length (col[m := 2]) \<and> col[m := (2::cchar)] ! unat k \<noteq> 1"
  apply (erule exE)
  apply (rule_tac x = k in exI)
  apply (simp add: update2_not1)
  done

lemma ball_update2:
  assumes "\<forall>x \<in> S. \<exists>k :: uint. ivm x = Some k \<and> unat k < length col \<and> col ! unat k \<noteq> 1"
  shows "\<forall>x \<in> S. \<exists>k. ivm x = Some k \<and> unat k < length (col[m := 2]) \<and> col[m := (2::cchar)] ! unat k \<noteq> 1"
proof
  fix x assume "x \<in> S"
  with assms have "\<exists>k. ivm x = Some k \<and> unat k < length col \<and> col ! unat k \<noteq> 1" by (rule bspec)
  then show "\<exists>k. ivm x = Some k \<and> unat k < length (col[m := 2]) \<and> col[m := 2] ! unat k \<noteq> 1"
    by (rule ex_update2)
qed

lemma seed_a_registered:
  "\<forall>a \<in> set ids. \<exists>i. ivm a = Some i \<and> unat i < length col \<Longrightarrow>
   \<exists>col'. seed_a ivm ids (col, q) = Inr (col', q @ map (\<lambda>a. the (ivm a)) ids) \<and>
     length col' = length col \<and>
     (\<forall>k < length col. col' ! k =
        (if \<exists>a \<in> set ids. \<exists>i. ivm a = Some i \<and> unat i = k then 1 else col ! k))"
proof (induction ids arbitrary: col q)
  case Nil
  then show ?case by simp
next
  case (Cons a ids)
  obtain i where i: "ivm a = Some i" "unat i < length col" using Cons.prems by auto
  have h: "\<forall>a \<in> set ids. \<exists>j. ivm a = Some j \<and> unat j < length (col[unat i := 1])"
    using Cons.prems by simp
  obtain col' where c: "seed_a ivm ids (col[unat i := 1], q @ [i])
        = Inr (col', (q @ [i]) @ map (\<lambda>a. the (ivm a)) ids)"
      "length col' = length (col[unat i := 1])"
      "\<forall>k < length (col[unat i := 1]). col' ! k =
        (if \<exists>a \<in> set ids. \<exists>j. ivm a = Some j \<and> unat j = k then 1 else col[unat i := 1] ! k)"
    using Cons.IH[OF h, of "q @ [i]"] by blast
  have 1: "seed_a ivm (a # ids) (col, q) = Inr (col', q @ map (\<lambda>a. the (ivm a)) (a # ids))"
    using i c(1) by simp
  have 3: "col' ! k = (if \<exists>x \<in> set (a # ids). \<exists>j. ivm x = Some j \<and> unat j = k then 1 else col ! k)"
    if "k < length col" for k
  proof (cases "\<exists>x \<in> set ids. \<exists>j. ivm x = Some j \<and> unat j = k")
    case True
    then show ?thesis using c(3) that by auto
  next
    case False
    have "col' ! k = (if \<exists>x \<in> set ids. \<exists>j. ivm x = Some j \<and> unat j = k then 1
        else col[unat i := 1] ! k)" using c(3) that by simp
    then have "col' ! k = col[unat i := 1] ! k" using False by (simp only: if_False)
    then show ?thesis using False i that by (auto simp: nth_list_update)
  qed
  show ?case using 1 c(2) 3 by auto
qed

lemma seed_b_continue:
  "\<forall>b \<in> set ids. \<exists>i. ivm b = Some i \<and> unat i < length col \<and> col ! unat i \<noteq> 1 \<Longrightarrow>
   \<exists>col'. seed_b ivm ids (col, q) = Inr (Continue (col', q @ map (\<lambda>b. the (ivm b)) ids)) \<and>
     length col' = length col \<and>
     (\<forall>k < length col. col' ! k =
        (if \<exists>b \<in> set ids. \<exists>i. ivm b = Some i \<and> unat i = k then 2 else col ! k))"
proof (induction ids arbitrary: col q)
  case Nil
  then show ?case by simp
next
  case (Cons b ids)
  obtain i where i: "ivm b = Some i" "unat i < length col" "col ! unat i \<noteq> 1"
    using Cons.prems by auto
  have h0: "\<forall>x \<in> set ids. \<exists>k. ivm x = Some k \<and> unat k < length col \<and> col ! unat k \<noteq> 1"
    using Cons.prems by simp
  have h: "\<forall>x \<in> set ids. \<exists>j. ivm x = Some j \<and> unat j < length (col[unat i := 2]) \<and>
      col[unat i := 2] ! unat j \<noteq> 1"
    using ball_update2[OF h0, of "unat i"] by simp
  obtain col' where c: "seed_b ivm ids (col[unat i := 2], q @ [i])
        = Inr (Continue (col', (q @ [i]) @ map (\<lambda>b. the (ivm b)) ids))"
      "length col' = length (col[unat i := 2])"
      "\<forall>k < length (col[unat i := 2]). col' ! k =
        (if \<exists>x \<in> set ids. \<exists>j. ivm x = Some j \<and> unat j = k then 2 else col[unat i := 2] ! k)"
    using Cons.IH[OF h, of "q @ [i]"] by blast
  have 1: "seed_b ivm (b # ids) (col, q) = Inr (Continue (col', q @ map (\<lambda>b. the (ivm b)) (b # ids)))"
    using i c(1) by simp
  have 3: "col' ! k = (if \<exists>x \<in> set (b # ids). \<exists>j. ivm x = Some j \<and> unat j = k then 2 else col ! k)"
    if "k < length col" for k
  proof (cases "\<exists>x \<in> set ids. \<exists>j. ivm x = Some j \<and> unat j = k")
    case True
    then show ?thesis using c(3) that by auto
  next
    case False
    have "col' ! k = (if \<exists>x \<in> set ids. \<exists>j. ivm x = Some j \<and> unat j = k then 2
        else col[unat i := 2] ! k)" using c(3) that by simp
    then have "col' ! k = col[unat i := 2] ! k" using False by (simp only: if_False)
    then show ?thesis using False i that by (auto simp: nth_list_update)
  qed
  show ?case using 1 c(2) 3 by auto
qed

lemma seed_b_return:
  "\<forall>x \<in> set pre. \<exists>j. ivm x = Some j \<and> unat j < length col \<and> col ! unat j \<noteq> 1 \<Longrightarrow>
   ivm b = Some i \<Longrightarrow> unat i < length col \<Longrightarrow> col ! unat i = 1 \<Longrightarrow>
   seed_b ivm (pre @ b # post) (col, q) = Inr (Return (b, 0))"
proof (induction pre arbitrary: col q)
  case Nil
  then show ?case by simp
next
  case (Cons p pre)
  obtain j where j: "ivm p = Some j" "unat j < length col" "col ! unat j \<noteq> 1"
    using Cons.prems(1) by auto
  have ne: "unat j \<noteq> unat i" using j(3) Cons.prems(4) by auto
  have h0: "\<forall>x \<in> set pre. \<exists>k. ivm x = Some k \<and> unat k < length col \<and> col ! unat k \<noteq> 1"
    using Cons.prems(1) by simp
  have h: "\<forall>x \<in> set pre. \<exists>k. ivm x = Some k \<and> unat k < length (col[unat j := 2]) \<and>
      col[unat j := 2] ! unat k \<noteq> 1"
    using ball_update2[OF h0, of "unat j"] by simp
  have h3: "unat i < length (col[unat j := 2])" using Cons.prems(3) by simp
  have h4: "col[unat j := 2] ! unat i = 1" using ne Cons.prems(4) by simp
  have "seed_b ivm (pre @ b # post) (col[unat j := 2], q @ [j]) = Inr (Return (b, 0))"
    by (rule Cons.IH[OF h Cons.prems(2) h3 h4])
  then show ?case using j by simp
qed

lemma seed_a_unknown:
  "\<forall>x \<in> set pre. \<exists>j. ivm x = Some j \<and> unat j < length col \<Longrightarrow> ivm u = None \<Longrightarrow>
   seed_a ivm (pre @ u # post) (col, q) = Inl OutOfRange"
proof (induction pre arbitrary: col q)
  case Nil
  then show ?case by simp
next
  case (Cons p pre)
  obtain j where j: "ivm p = Some j" "unat j < length col" using Cons.prems(1) by auto
  have h: "\<forall>x \<in> set pre. \<exists>k. ivm x = Some k \<and> unat k < length (col[unat j := 1])"
    using Cons.prems(1) by simp
  have "seed_a ivm (pre @ u # post) (col[unat j := 1], q @ [j]) = Inl OutOfRange"
    by (rule Cons.IH[OF h Cons.prems(2)])
  then show ?case using j by simp
qed

lemma seed_b_unknown:
  "\<forall>x \<in> set pre. \<exists>j. ivm x = Some j \<and> unat j < length col \<and> col ! unat j \<noteq> 1 \<Longrightarrow>
   ivm u = None \<Longrightarrow> seed_b ivm (pre @ u # post) (col, q) = Inl OutOfRange"
proof (induction pre arbitrary: col q)
  case Nil
  then show ?case by simp
next
  case (Cons p pre)
  obtain j where j: "ivm p = Some j" "unat j < length col" "col ! unat j \<noteq> 1"
    using Cons.prems(1) by auto
  have h0: "\<forall>x \<in> set pre. \<exists>k. ivm x = Some k \<and> unat k < length col \<and> col ! unat k \<noteq> 1"
    using Cons.prems(1) by simp
  have h: "\<forall>x \<in> set pre. \<exists>k. ivm x = Some k \<and> unat k < length (col[unat j := 2]) \<and>
      col[unat j := 2] ! unat k \<noteq> 1"
    using ball_update2[OF h0, of "unat j"] by simp
  have "seed_b ivm (pre @ u # post) (col[unat j := 2], q @ [j]) = Inl OutOfRange"
    by (rule Cons.IH[OF h Cons.prems(2)])
  then show ?case using j by simp
qed

text \<open>After the first loop on a well-formed digraph, colour 1 marks exactly the ids of the first set.\<close>

lemma seed_a_wf:
  assumes wf: "wf_digraph g" and reg: "set subset_a \<subseteq> dom (id_vert_map g)"
  shows "\<exists>col. seed_a (id_vert_map g) subset_a (replicate (size_digraph g) 0, [])
            = Inr (col, map (\<lambda>a. the (id_vert_map g a)) subset_a) \<and>
          length col = length (graph g) \<and>
          (\<forall>x i. id_vert_map g x = Some i \<longrightarrow> col ! unat i = (if x \<in> set subset_a then 1 else 0))"
proof -
  let ?n = "length (graph g)"
  have "\<forall>a \<in> set subset_a. \<exists>i. id_vert_map g a = Some i \<and> unat i < length (replicate ?n (0 :: cchar))"
  proof
    fix a assume "a \<in> set subset_a"
    then obtain i where "id_vert_map g a = Some i" using reg by auto
    then show "\<exists>i. id_vert_map g a = Some i \<and> unat i < length (replicate ?n (0 :: cchar))"
      using wf_lookup_in_range[OF wf] by auto
  qed
  then obtain col where c:
    "seed_a (id_vert_map g) subset_a (replicate ?n 0, []) = Inr (col, [] @ map (\<lambda>a. the (id_vert_map g a)) subset_a)"
    "length col = length (replicate ?n (0 :: cchar))"
    "\<forall>k < length (replicate ?n (0 :: cchar)). col ! k =
        (if \<exists>a \<in> set subset_a. \<exists>i. id_vert_map g a = Some i \<and> unat i = k then 1 else replicate ?n 0 ! k)"
    using seed_a_registered[of subset_a "id_vert_map g" "replicate ?n 0" "[]"] by blast
  have "col ! unat i = (if x \<in> set subset_a then 1 else 0)" if x: "id_vert_map g x = Some i" for x i
  proof -
    have r: "unat i < ?n" using wf x by (rule wf_lookup_in_range)
    have "(\<exists>a \<in> set subset_a. \<exists>j. id_vert_map g a = Some j \<and> unat j = unat i) \<longleftrightarrow> x \<in> set subset_a"
    proof
      assume "\<exists>a \<in> set subset_a. \<exists>j. id_vert_map g a = Some j \<and> unat j = unat i"
      then obtain a j where a: "a \<in> set subset_a" "id_vert_map g a = Some j" "unat j = unat i" by blast
      then have "j = i" by (simp add: word_unat_eq_iff)
      then have "a = x" using wf_lookup_nth[OF wf a(2)] wf_lookup_nth[OF wf x] by simp
      then show "x \<in> set subset_a" using a(1) by simp
    next
      assume "x \<in> set subset_a"
      then show "\<exists>a \<in> set subset_a. \<exists>j. id_vert_map g a = Some j \<and> unat j = unat i" using x by blast
    qed
    then show ?thesis using c(3) r by simp
  qed
  then show ?thesis using c(1) c(2) by (simp add: size_digraph_def)
qed

section \<open>Paths in external ids and in dense indices\<close>

lemma walk_Suc_intro:
  assumes wf: "wf_digraph g" and a: "id_vert_map g a = Some i"
    and k: "k \<in> set (graph g ! unat i)" and w: "walk g (vert_id_map g ! unat k) n y"
  shows "walk g a (Suc n) y"
proof -
  have "get_neighbours g a = Inr (map (\<lambda>n. vert_id_map g ! unat n) (graph g ! unat i))"
    using wf_get_neighbours[OF wf, of a] a by simp
  moreover have "vert_id_map g ! unat k \<in> set (map (\<lambda>n. vert_id_map g ! unat n) (graph g ! unat i))"
    using k by simp
  ultimately show ?thesis using w by (auto simp: list_ex_iff simp del: set_map)
qed

lemma dedges_walk:
  assumes wf: "wf_digraph g" and r: "(i, j) \<in> (dedges (graph g))\<^sup>*"
    and a: "id_vert_map g a = Some i"
  shows "\<exists>n. walk g a n (vert_id_map g ! unat j)"
proof -
  have "\<forall>a. id_vert_map g a = Some i \<longrightarrow> (\<exists>n. walk g a n (vert_id_map g ! unat j))"
    using r
  proof (induction rule: converse_rtrancl_induct)
    case base
    show ?case
    proof (intro allI impI)
      fix a assume "id_vert_map g a = Some j"
      then have "vert_id_map g ! unat j = a" using wf by (simp add: wf_lookup_nth)
      then have "walk g a 0 (vert_id_map g ! unat j)" by simp
      then show "\<exists>n. walk g a n (vert_id_map g ! unat j)" by blast
    qed
  next
    case (step i k)
    show ?case
    proof (intro allI impI)
      fix a assume a: "id_vert_map g a = Some i"
      have e: "unat i < length (graph g)" "k \<in> set (graph g ! unat i)"
        using step.hyps(1) by (simp_all add: dedges_def)
      have "unat k < length (vert_id_map g)"
        using wf_row_in_range[OF wf e(1)] e(2) by blast
      then have "id_vert_map g (vert_id_map g ! unat k) = Some k" using wf by (simp add: wf_digraph_def)
      then obtain n where "walk g (vert_id_map g ! unat k) n (vert_id_map g ! unat j)"
        using step.IH by blast
      then have "walk g a (Suc n) (vert_id_map g ! unat j)"
        using walk_Suc_intro[OF wf a e(2)] by simp
      then show "\<exists>n. walk g a n (vert_id_map g ! unat j)" by blast
    qed
  qed
  then show ?thesis using a by blast
qed

lemma walk_closed:
  assumes cl: "\<And>v ns. v \<in> S \<Longrightarrow> get_neighbours g v = Inr ns \<Longrightarrow> set ns \<subseteq> S"
  shows "walk g v n y \<Longrightarrow> v \<in> S \<Longrightarrow> y \<in> S"
proof (induction n arbitrary: v)
  case 0
  then show ?case by simp
next
  case (Suc n)
  obtain ns where ns: "get_neighbours g v = Inr ns" using Suc.prems(1) by (auto split: sum.splits)
  then obtain u where u: "u \<in> set ns" "walk g u n y"
    using Suc.prems(1) by (auto simp: list_ex_iff)
  have "u \<in> S" using cl[OF Suc.prems(2) ns] u(1) by blast
  then show ?case using Suc.IH[OF u(2)] by simp
qed

section \<open>Queries without a common ancestor\<close>

lemma ancestor_length_separate:
  assumes wf: "wf_digraph g" and ne: "subset_a \<noteq> []"
    and reg: "set subset_a \<union> set subset_b \<subseteq> dom (id_vert_map g)"
    and none: "\<forall>y. \<not> common_ancestor g subset_a subset_b y"
  shows "ancestor_length g subset_a subset_b = Some (Inr (vert_id_map g ! 0, - 1))"
proof -
  let ?ivm = "id_vert_map g" and ?adj = "graph g" and ?n = "length (graph g)"
  let ?qa = "map (\<lambda>a. the (?ivm a)) subset_a" and ?qb = "map (\<lambda>b. the (?ivm b)) subset_b"
  have len: "length (vert_id_map g) = ?n" using wf by (simp add: wf_digraph_def)
  have rows: "\<forall>row \<in> set ?adj. \<forall>n \<in> set row. unat n < ?n" using wf by (simp add: wf_digraph_def)
  have rega: "set subset_a \<subseteq> dom ?ivm" using reg by simp
  obtain col1 where c1: "seed_a ?ivm subset_a (replicate (size_digraph g) 0, []) = Inr (col1, ?qa)"
      "length col1 = ?n"
      "\<forall>x i. ?ivm x = Some i \<longrightarrow> col1 ! unat i = (if x \<in> set subset_a then 1 else 0)"
    using seed_a_wf[OF wf rega] by blast
  have disj_ab: "x \<notin> set subset_b" if "x \<in> set subset_a" for x
  proof
    assume "x \<in> set subset_b"
    then have "common_ancestor g subset_a subset_b x"
      unfolding common_ancestor_def using that by (metis walk.simps(1))
    then show False using none by blast
  qed
  have pb: "\<forall>b \<in> set subset_b. \<exists>i. ?ivm b = Some i \<and> unat i < length col1 \<and> col1 ! unat i \<noteq> 1"
  proof
    fix b assume b: "b \<in> set subset_b"
    then obtain i where i: "?ivm b = Some i" using reg by auto
    have "b \<notin> set subset_a" using disj_ab b by blast
    then have "col1 ! unat i = 0" using c1(3) i by simp
    then show "\<exists>i. ?ivm b = Some i \<and> unat i < length col1 \<and> col1 ! unat i \<noteq> 1"
      using i wf_lookup_in_range[OF wf i] c1(2) by simp
  qed
  obtain col2 where c2: "seed_b ?ivm subset_b (col1, ?qa) = Inr (Continue (col2, ?qa @ ?qb))"
      "length col2 = length col1"
      "\<forall>k < length col1. col2 ! k =
         (if \<exists>b \<in> set subset_b. \<exists>i. ?ivm b = Some i \<and> unat i = k then 2 else col1 ! k)"
    using seed_b_continue[OF pb, of ?qa] by blast
  define RA where "RA = {j. \<exists>a \<in> set subset_a. \<exists>i. ?ivm a = Some i \<and> (i, j) \<in> (dedges ?adj)\<^sup>*}"
  define RB where "RB = {j. \<exists>b \<in> set subset_b. \<exists>i. ?ivm b = Some i \<and> (i, j) \<in> (dedges ?adj)\<^sup>*}"
  define s0 where "s0 = \<lparr>color = col2, distance = replicate (size_digraph g) 0, queue = ?qa @ ?qb,
       min_distance = - 1, min_distance_ancestor = 0\<rparr>"
  have closedA: "\<forall>(i, j) \<in> dedges ?adj. i \<in> RA \<longrightarrow> j \<in> RA"
    unfolding RA_def by (auto intro: rtrancl_into_rtrancl)
  have closedB: "\<forall>(i, j) \<in> dedges ?adj. i \<in> RB \<longrightarrow> j \<in> RB"
    unfolding RB_def by (auto intro: rtrancl_into_rtrancl)
  have disj: "RA \<inter> RB = {}"
  proof (rule ccontr)
    assume "RA \<inter> RB \<noteq> {}"
    then obtain j where "j \<in> RA" "j \<in> RB" by blast
    then obtain a i b k where
      a: "a \<in> set subset_a" "?ivm a = Some i" "(i, j) \<in> (dedges ?adj)\<^sup>*" and
      b: "b \<in> set subset_b" "?ivm b = Some k" "(k, j) \<in> (dedges ?adj)\<^sup>*"
      unfolding RA_def RB_def by blast
    have "\<exists>n. walk g a n (vert_id_map g ! unat j)" using dedges_walk[OF wf a(3) a(2)] .
    moreover have "\<exists>n. walk g b n (vert_id_map g ! unat j)" using dedges_walk[OF wf b(3) b(2)] .
    ultimately have "common_ancestor g subset_a subset_b (vert_id_map g ! unat j)"
      unfolding common_ancestor_def using a(1) b(1) by blast
    then show False using none by blast
  qed
  have colB: "col2 ! unat i = 2 \<and> i \<in> RB" if "b \<in> set subset_b" "?ivm b = Some i" for b i
  proof -
    have "unat i < length col1" using wf_lookup_in_range[OF wf that(2)] c1(2) by simp
    then have "col2 ! unat i = 2" using c2(3) that by auto
    moreover have "i \<in> RB" unfolding RB_def using that by blast
    ultimately show ?thesis by simp
  qed
  have side: "col2 ! unat v = 0 \<or> col2 ! unat v = 1 \<and> v \<in> RA \<or> col2 ! unat v = 2 \<and> v \<in> RB"
    if v: "unat v < ?n" for v
  proof (cases "\<exists>b \<in> set subset_b. \<exists>i. ?ivm b = Some i \<and> unat i = unat v")
    case True
    then obtain b i where b: "b \<in> set subset_b" "?ivm b = Some i" "unat i = unat v" by blast
    then have "i = v" by (simp add: word_unat_eq_iff)
    then show ?thesis using colB[OF b(1) b(2)] by simp
  next
    case False
    have "col2 ! unat v = (if \<exists>b \<in> set subset_b. \<exists>i. ?ivm b = Some i \<and> unat i = unat v then 2
        else col1 ! unat v)" using c2(3) v c1(2) by simp
    then have eq: "col2 ! unat v = col1 ! unat v" using False by (simp only: if_False)
    have iv: "?ivm (vert_id_map g ! unat v) = Some v" using wf v len by (simp add: wf_digraph_def)
    show ?thesis
    proof (cases "vert_id_map g ! unat v \<in> set subset_a")
      case True
      then have "v \<in> RA" unfolding RA_def using iv by blast
      moreover have "col1 ! unat v = 1" using c1(3) iv True by simp
      ultimately show ?thesis using eq by simp
    next
      case False
      then have "col1 ! unat v = 0" using c1(3) iv by simp
      then show ?thesis using eq by simp
    qed
  qed
  have qs: "unat q < ?n \<and> col2 ! unat q \<noteq> 0" if "q \<in> set (?qa @ ?qb)" for q
  proof -
    from that consider a where "a \<in> set subset_a" "q = the (?ivm a)"
      | b where "b \<in> set subset_b" "q = the (?ivm b)" by auto
    then show ?thesis
    proof cases
      case 1
      then obtain i where i: "?ivm a = Some i" using reg by auto
      have r: "unat i < ?n" using wf i by (rule wf_lookup_in_range)
      have "col1 ! unat i = 1" using c1(3) i 1(1) by simp
      moreover have "col2 ! unat i = (if \<exists>b \<in> set subset_b. \<exists>k. ?ivm b = Some k \<and> unat k = unat i then 2
        else col1 ! unat i)" using c2(3) r c1(2) by simp
      ultimately have "col2 ! unat i \<noteq> 0" by (cases "\<exists>b \<in> set subset_b. \<exists>k. ?ivm b = Some k \<and> unat k = unat i") simp_all
      then show ?thesis using 1(2) i r by simp
    next
      case 2
      then obtain i where i: "?ivm b = Some i" using reg by auto
      have r: "unat i < ?n" using wf i by (rule wf_lookup_in_range)
      have "col2 ! unat i = 2" using colB[OF 2(1) i] by simp
      then show ?thesis using 2(2) i r by simp
    qed
  qed
  have inv0: "sep_inv ?adj RA RB s0"
    unfolding sep_inv_def
  proof (intro conjI)
    show "length (color s0) = ?n" using c2(2) c1(2) by (simp add: s0_def)
    show "length (distance s0) = ?n" by (simp add: s0_def size_digraph_def)
    show "\<forall>q \<in> set (queue s0). unat q < ?n \<and> color s0 ! unat q \<noteq> 0"
      using qs by (simp add: s0_def)
    show "\<forall>v. unat v < ?n \<longrightarrow>
        (color s0 ! unat v = 0 \<or> color s0 ! unat v = 1 \<and> v \<in> RA \<or> color s0 ! unat v = 2 \<and> v \<in> RB)"
      using side by (simp add: s0_def)
    show "min_distance s0 = - 1" by (simp add: s0_def)
    show "min_distance_ancestor s0 = 0" by (simp add: s0_def)
  qed
  obtain s' where s': "bfs ?adj s0 = Some (Inr s')" "sep_inv ?adj RA RB s'"
    using bfs_sep[OF closedA closedB disj rows inv0] by blast
  have fin: "min_distance s' = - 1" "min_distance_ancestor s' = 0"
    using s'(2) by (simp_all add: sep_inv_def)
  obtain a where "a \<in> set subset_a" using ne by (cases subset_a) auto
  then obtain i where "?ivm a = Some i" using reg by auto
  then have pos: "0 < length (vert_id_map g)" using wf_lookup_in_range[OF wf] len by fastforce
  show ?thesis
    unfolding ancestor_length_def using c1(1) c2(1) s'(1) fin pos by (simp add: s0_def)
qed

section \<open>Every query on registered ids returns\<close>

lemma visit_wf:
  assumes rows: "\<forall>row \<in> set adj. \<forall>n \<in> set row. unat n < length adj"
    and vert: "unat vert < length adj"
  shows "bfs_wf adj s \<Longrightarrow> color s ! unat vert \<noteq> 0 \<Longrightarrow> set tos \<subseteq> set (adj ! unat vert) \<Longrightarrow>
     \<exists>s'. visit vert tos s = Inr s' \<and> bfs_wf adj s' \<and> bfs_measure s' \<le> bfs_measure s"
proof (induction tos arbitrary: s)
  case Nil
  then show ?case by simp
next
  case (Cons to tos)
  have len: "length (color s) = length adj" "length (distance s) = length adj"
    and qs: "\<forall>q \<in> set (queue s). unat q < length adj \<and> color s ! unat q \<noteq> 0"
    and anc: "unat (min_distance_ancestor s) < length adj"
    using Cons.prems(1) by (simp_all add: bfs_wf_def)
  have tin: "to \<in> set (adj ! unat vert)" and sub: "set tos \<subseteq> set (adj ! unat vert)"
    using Cons.prems(3) by auto
  have "adj ! unat vert \<in> set adj" using vert by simp
  then have to: "unat to < length adj" using rows tin by blast
  have rng: "unat to < length (color s) \<and> unat to < length (distance s) \<and>
         unat vert < length (color s) \<and> unat vert < length (distance s)"
    using to vert len by simp
  show ?case
  proof (cases "color s ! unat to = 0")
    case True
    let ?s1 = "s\<lparr>color := (color s)[unat to := color s ! unat vert],
                  distance := (distance s)[unat to := distance s ! unat vert + 1],
                  queue := queue s @ [to]\<rparr>"
    have ne: "unat to \<noteq> unat vert" using True Cons.prems(2) by auto
    have q1: "\<forall>q \<in> set (queue ?s1). unat q < length adj \<and> color ?s1 ! unat q \<noteq> 0"
    proof
      fix q assume "q \<in> set (queue ?s1)"
      then have "q = to \<or> q \<in> set (queue s)" by auto
      then show "unat q < length adj \<and> color ?s1 ! unat q \<noteq> 0"
      proof
        assume "q = to"
        then show ?thesis using to len Cons.prems(2) by simp
      next
        assume "q \<in> set (queue s)"
        then have qq: "unat q < length adj \<and> color s ! unat q \<noteq> 0" using qs by blast
        then have "unat to \<noteq> unat q" using True by auto
        then have "color ?s1 ! unat q = color s ! unat q" by simp
        then show ?thesis using qq by simp
      qed
    qed
    have wf1: "bfs_wf adj ?s1"
      unfolding bfs_wf_def
    proof (intro conjI)
      show "length (color ?s1) = length adj" using len by simp
      show "length (distance ?s1) = length adj" using len by simp
      show "\<forall>q \<in> set (queue ?s1). unat q < length adj \<and> color ?s1 ! unat q \<noteq> 0" by (rule q1)
      show "unat (min_distance_ancestor ?s1) < length adj" using anc by simp
    qed
    have cv1: "color ?s1 ! unat vert \<noteq> 0" using ne Cons.prems(2) by simp
    have "Suc (card {k. k < length (color ?s1) \<and> color ?s1 ! k = 0})
           = card {k. k < length (color s) \<and> color s ! k = 0}"
      using zeros_update[of "unat to" "color s" "color s ! unat vert"] to len True Cons.prems(2)
      by simp
    then have m1: "bfs_measure ?s1 < bfs_measure s" by (simp add: bfs_measure_def)
    have "\<exists>s'. visit vert tos ?s1 = Inr s' \<and> bfs_wf adj s' \<and> bfs_measure s' \<le> bfs_measure ?s1"
      by (rule Cons.IH[OF wf1 cv1 sub])
    then obtain s' where s': "visit vert tos ?s1 = Inr s'" "bfs_wf adj s'"
        "bfs_measure s' \<le> bfs_measure ?s1"
      by blast
    have "visit vert (to # tos) s = visit vert tos ?s1" using rng True by simp
    then have "visit vert (to # tos) s = Inr s'" using s'(1) by simp
    moreover have "bfs_measure s' \<le> bfs_measure s" using s'(3) m1 by linarith
    ultimately show ?thesis using s'(2) by blast
  next
    case False
    let ?cur = "distance s ! unat to + distance s ! unat vert + 1"
    let ?s2 = "s\<lparr>min_distance := ?cur, min_distance_ancestor := to\<rparr>"
    have wf2: "bfs_wf adj ?s2" unfolding bfs_wf_def using len qs to by simp
    have cv2: "color ?s2 ! unat vert \<noteq> 0" using Cons.prems(2) by simp
    have m2: "bfs_measure ?s2 = bfs_measure s" by (simp add: bfs_measure_def)
    have a: "\<exists>s'. visit vert tos ?s2 = Inr s' \<and> bfs_wf adj s' \<and> bfs_measure s' \<le> bfs_measure ?s2"
      by (rule Cons.IH[OF wf2 cv2 sub])
    have b: "\<exists>s'. visit vert tos s = Inr s' \<and> bfs_wf adj s' \<and> bfs_measure s' \<le> bfs_measure s"
      by (rule Cons.IH[OF Cons.prems(1) Cons.prems(2) sub])
    have "visit vert (to # tos) s = visit vert tos ?s2 \<or> visit vert (to # tos) s = visit vert tos s"
      using rng False by (simp add: Let_def)
    then show ?thesis
    proof
      assume e: "visit vert (to # tos) s = visit vert tos ?s2"
      obtain s' where "visit vert tos ?s2 = Inr s'" "bfs_wf adj s'"
          "bfs_measure s' \<le> bfs_measure ?s2"
        using a by blast
      then show ?thesis unfolding e m2 by blast
    next
      assume e: "visit vert (to # tos) s = visit vert tos s"
      show ?thesis unfolding e by (rule b)
    qed
  qed
qed

lemma bfs_returns:
  assumes rows: "\<forall>row \<in> set adj. \<forall>n \<in> set row. unat n < length adj"
  shows "bfs_wf adj s \<Longrightarrow> \<exists>s'. bfs adj s = Some (Inr s') \<and> bfs_wf adj s'"
proof (induction "bfs_measure s" arbitrary: s rule: less_induct)
  case less
  show ?case
  proof (cases "queue s")
    case Nil
    then have "bfs adj s = Some (Inr s)" by (subst bfs.simps) simp
    then show ?thesis using less.prems by simp
  next
    case (Cons vert rest)
    have p: "bfs_wf adj (s\<lparr>queue := rest\<rparr>)" "unat vert < length adj"
      "color (s\<lparr>queue := rest\<rparr>) ! unat vert \<noteq> 0"
      "bfs_measure (s\<lparr>queue := rest\<rparr>) < bfs_measure s"
      using less.prems Cons by (simp_all add: bfs_wf_def bfs_measure_def)
    obtain s1 where s1: "visit vert (adj ! unat vert) (s\<lparr>queue := rest\<rparr>) = Inr s1"
        "bfs_wf adj s1" "bfs_measure s1 \<le> bfs_measure (s\<lparr>queue := rest\<rparr>)"
      using visit_wf[OF rows p(2) p(1) p(3) subset_refl] by blast
    have "bfs_measure s1 < bfs_measure s" using s1(3) p(4) by simp
    then obtain s' where s': "bfs adj s1 = Some (Inr s')" "bfs_wf adj s'"
      using less.hyps s1(2) by blast
    have "bfs adj s = bfs adj s1" using Cons p(2) s1(1) by (subst bfs.simps) simp
    then show ?thesis using s' by simp
  qed
qed

lemma seed_b_total:
  "\<forall>b \<in> set ids. \<exists>i. ivm b = Some i \<and> unat i < length col \<Longrightarrow>
   \<forall>q' \<in> set q. unat q' < length col \<and> col ! unat q' \<noteq> 0 \<Longrightarrow>
   (\<exists>r. seed_b ivm ids (col, q) = Inr (Return r)) \<or>
   (\<exists>col' q'. seed_b ivm ids (col, q) = Inr (Continue (col', q')) \<and> length col' = length col \<and>
      (\<forall>x \<in> set q'. unat x < length col \<and> col' ! unat x \<noteq> 0))"
proof (induction ids arbitrary: col q)
  case Nil
  then show ?case by simp
next
  case (Cons b ids)
  obtain i where i: "ivm b = Some i" "unat i < length col" using Cons.prems(1) by auto
  show ?case
  proof (cases "col ! unat i = 1")
    case True
    then show ?thesis using i by simp
  next
    case False
    let ?col = "col[unat i := 2]"
    have h1: "\<forall>b \<in> set ids. \<exists>j. ivm b = Some j \<and> unat j < length ?col"
      using Cons.prems(1) by simp
    have h2: "\<forall>q' \<in> set (q @ [i]). unat q' < length ?col \<and> ?col ! unat q' \<noteq> 0"
    proof
      fix x assume "x \<in> set (q @ [i])"
      then have "x = i \<or> x \<in> set q" by auto
      then show "unat x < length ?col \<and> ?col ! unat x \<noteq> 0"
      proof
        assume "x = i"
        then show ?thesis using i(2) by simp
      next
        assume "x \<in> set q"
        then have "unat x < length col \<and> col ! unat x \<noteq> 0" using Cons.prems(2) by blast
        then show ?thesis by (cases "unat i = unat x") simp_all
      qed
    qed
    have "seed_b ivm (b # ids) (col, q) = seed_b ivm ids (?col, q @ [i])"
      using i False by simp
    then show ?thesis using Cons.IH[OF h1 h2] by simp
  qed
qed

lemma ancestor_length_returns:
  assumes wf: "wf_digraph g" and ne: "subset_a \<noteq> []"
    and reg: "set subset_a \<union> set subset_b \<subseteq> dom (id_vert_map g)"
  shows "\<exists>x d. ancestor_length g subset_a subset_b = Some (Inr (x, d))"
proof -
  let ?ivm = "id_vert_map g" and ?adj = "graph g" and ?n = "length (graph g)"
  let ?qa = "map (\<lambda>a. the (?ivm a)) subset_a"
  have len: "length (vert_id_map g) = ?n" using wf by (simp add: wf_digraph_def)
  have rows: "\<forall>row \<in> set ?adj. \<forall>n \<in> set row. unat n < ?n" using wf by (simp add: wf_digraph_def)
  have rega: "set subset_a \<subseteq> dom ?ivm" using reg by simp
  obtain col1 where c1: "seed_a ?ivm subset_a (replicate (size_digraph g) 0, []) = Inr (col1, ?qa)"
      "length col1 = ?n"
      "\<forall>x i. ?ivm x = Some i \<longrightarrow> col1 ! unat i = (if x \<in> set subset_a then 1 else 0)"
    using seed_a_wf[OF wf rega] by blast
  obtain a where a: "a \<in> set subset_a" using ne by (cases subset_a) auto
  then obtain ia where ia: "?ivm a = Some ia" using reg by auto
  have pos: "0 < ?n" using wf_lookup_in_range[OF wf ia] by (cases "graph g") simp_all
  have hb: "\<forall>b \<in> set subset_b. \<exists>i. ?ivm b = Some i \<and> unat i < length col1"
  proof
    fix b assume "b \<in> set subset_b"
    then obtain i where i: "?ivm b = Some i" using reg by auto
    then show "\<exists>i. ?ivm b = Some i \<and> unat i < length col1"
      using wf_lookup_in_range[OF wf i] c1(2) by simp
  qed
  have hq: "\<forall>q \<in> set ?qa. unat q < length col1 \<and> col1 ! unat q \<noteq> 0"
  proof
    fix q assume "q \<in> set ?qa"
    then obtain x where x: "x \<in> set subset_a" "q = the (?ivm x)" by auto
    then obtain i where i: "?ivm x = Some i" using reg by auto
    have "col1 ! unat i = 1" using c1(3) i x(1) by simp
    then show "unat q < length col1 \<and> col1 ! unat q \<noteq> 0"
      using x(2) i wf_lookup_in_range[OF wf i] c1(2) by simp
  qed
  from seed_b_total[OF hb hq] show ?thesis
  proof
    assume "\<exists>r. seed_b ?ivm subset_b (col1, ?qa) = Inr (Return r)"
    then obtain r where "seed_b ?ivm subset_b (col1, ?qa) = Inr (Return r)" by blast
    then have "ancestor_length g subset_a subset_b = Some (Inr r)"
      unfolding ancestor_length_def using c1(1) by simp
    then show ?thesis by (cases r) simp
  next
    assume "\<exists>col' q'. seed_b ?ivm subset_b (col1, ?qa) = Inr (Continue (col', q')) \<and>
      length col' = length col1 \<and> (\<forall>x \<in> set q'. unat x < length col1 \<and> col' ! unat x \<noteq> 0)"
    then obtain col2 q2 where c2: "seed_b ?ivm subset_b (col1, ?qa) = Inr (Continue (col2, q2))"
        "length col2 = length col1" "\<forall>x \<in> set q2. unat x < length col1 \<and> col2 ! unat x \<noteq> 0"
      by blast
    define s0 where "s0 = \<lparr>color = col2, distance = replicate (size_digraph g) 0, queue = q2,
       min_distance = - 1, min_distance_ancestor = 0\<rparr>"
    have "bfs_wf ?adj s0"
      unfolding bfs_wf_def using c2(2) c2(3) c1(2) pos by (simp add: s0_def size_digraph_def)
    then obtain s' where s': "bfs ?adj s0 = Some (Inr s')" "bfs_wf ?adj s'"
      using bfs_returns[OF rows] by blast
    have "unat (min_distance_ancestor s') < length (vert_id_map g)"
      using s'(2) len by (simp add: bfs_wf_def)
    then show ?thesis
      unfolding ancestor_length_def using c1(1) c2(1) s'(1) by (simp add: s0_def)
  qed
qed

section \<open>Properties of the queries\<close>

lemma two_trees_neighbours:
  "get_neighbours two_trees 1 = Inr [3]" "get_neighbours two_trees 3 = Inr []"
  "get_neighbours two_trees 2 = Inr [4]" "get_neighbours two_trees 4 = Inr []"
  by code_simp+

lemma two_trees_from_2: "walk two_trees 2 n y \<Longrightarrow> y \<in> {2, 4}"
proof (rule walk_closed[where S = "{2, 4}" and v = 2])
  fix v ns assume "v \<in> {2 :: uint, 4}" "get_neighbours two_trees v = Inr ns"
  then show "set ns \<subseteq> {2, 4}" using two_trees_neighbours by auto
qed simp_all

lemma two_trees_from_1: "walk two_trees 1 n y \<Longrightarrow> y \<in> {1, 3}"
proof (rule walk_closed[where S = "{1, 3}" and v = 1])
  fix v ns assume "v \<in> {1 :: uint, 3}" "get_neighbours two_trees v = Inr ns"
  then show "set ns \<subseteq> {1, 3}" using two_trees_neighbours by auto
qed simp_all

lemma two_trees_separate: "\<not> common_ancestor two_trees [2] [1] y"
proof
  assume "common_ancestor two_trees [2] [1] y"
  then obtain n m where "walk two_trees 2 n y" "walk two_trees 1 m y"
    by (auto simp: common_ancestor_def)
  then have "y \<in> {2, 4}" "y \<in> {1, 3}" using two_trees_from_2 two_trees_from_1 by blast+
  then show False by auto
qed

lemma two_trees_lookup:
  "id_vert_map two_trees 1 = Some 0" "id_vert_map two_trees 2 = Some 2"
  "id_vert_map two_trees 7 = None" "vert_id_map two_trees ! 0 = 1"
  by code_simp+

text \<open>
  C2, as the code has it: on a constructed digraph, for non-empty sets of registered ids
  without a common ancestor, the query returns an ordinary pair. Its distance is the
  largest \<open>unsigned\<close> value, never 0; its vertex is the external id of dense vertex 0,
  whatever the query.
\<close>

theorem no_common_ancestor_result:
  assumes "constructed g" and "subset_a \<noteq> []" and "subset_b \<noteq> []"
    and "set subset_a \<union> set subset_b \<subseteq> dom (id_vert_map g)"
    and "\<forall>y. \<not> common_ancestor g subset_a subset_b y"
  shows "ancestor_length g subset_a subset_b = Some (Inr (vert_id_map g ! 0, 4294967295))"
proof -
  have "ancestor_length g subset_a subset_b = Some (Inr (vert_id_map g ! 0, - 1))"
    using ancestor_length_separate[OF constructed_wf[OF assms(1)] assms(2) assms(4) assms(5)] .
  then show ?thesis by simp
qed

theorem no_common_ancestor_result_witness:
  "constructed two_trees \<and> [2 :: uint] \<noteq> [] \<and> [1 :: uint] \<noteq> [] \<and>
   ancestor_length two_trees [2] [1] = Some (Inr (1, 4294967295))"
proof -
  have c: "constructed two_trees" by (rule constructed_two_trees)
  have r: "set [2] \<union> set [1] \<subseteq> dom (id_vert_map two_trees)"
    using two_trees_lookup by auto
  have s: "\<forall>y. \<not> common_ancestor two_trees [2] [1] y" using two_trees_separate by blast
  have "ancestor_length two_trees [2] [1] = Some (Inr (vert_id_map two_trees ! 0, 4294967295))"
    using no_common_ancestor_result[OF c _ _ r s] by simp
  then show ?thesis using c two_trees_lookup(4) by simp
qed

text \<open>
  C2 as stated fails: 2 and 1 have no common ancestor in the two trees, yet the query
  returns the pair with vertex 1, which is not an ancestor of 2.
\<close>

theorem no_common_ancestor_counterexample:
  "ancestor_length two_trees [2] [1] = Some (Inr (1, 4294967295)) \<and>
   \<not> common_ancestor two_trees [2] [1] 1"
proof -
  have "ancestor_length two_trees [2] [1] = Some (Inr (1, 4294967295))" by code_simp
  then show ?thesis using two_trees_separate by blast
qed

lemma first_in_split:
  assumes "\<exists>b \<in> set bs. P b"
  obtains pre x post where "bs = pre @ x # post" "P x" "\<forall>p \<in> set pre. \<not> P p"
    "hd (filter P bs) = x"
proof -
  obtain pre x post where s: "bs = pre @ x # post" "P x" "\<forall>p \<in> set pre. \<not> P p"
    using split_list_first_prop[OF assms] by blast
  have "filter P pre = []" using s(3) by (simp add: filter_empty_conv)
  then have "hd (filter P bs) = x" using s(1) s(2) by simp
  then show thesis using that s by blast
qed

lemma early_return:
  assumes wf: "wf_digraph g" and rega: "set subset_a \<subseteq> dom (id_vert_map g)"
    and b: "subset_b = pre @ x # post" and x: "x \<in> set subset_a"
    and pre: "\<forall>p \<in> set pre. p \<in> dom (id_vert_map g) \<and> p \<notin> set subset_a"
  shows "\<exists>cq. seed_a (id_vert_map g) subset_a (replicate (size_digraph g) 0, []) = Inr cq \<and>
           seed_b (id_vert_map g) subset_b cq = Inr (Return (x, 0))"
    and "ancestor_length g subset_a subset_b = Some (Inr (x, 0))"
proof -
  let ?ivm = "id_vert_map g"
  let ?qa = "map (\<lambda>a. the (?ivm a)) subset_a"
  obtain col1 where c1: "seed_a ?ivm subset_a (replicate (size_digraph g) 0, []) = Inr (col1, ?qa)"
      "length col1 = length (graph g)"
      "\<forall>x i. ?ivm x = Some i \<longrightarrow> col1 ! unat i = (if x \<in> set subset_a then 1 else 0)"
    using seed_a_wf[OF wf rega] by blast
  have p: "\<forall>p \<in> set pre. \<exists>j. ?ivm p = Some j \<and> unat j < length col1 \<and> col1 ! unat j \<noteq> 1"
  proof
    fix p assume p: "p \<in> set pre"
    then obtain j where j: "?ivm p = Some j" using pre by auto
    have "p \<notin> set subset_a" using pre p by blast
    then have "col1 ! unat j = 0" using c1(3) j by simp
    then show "\<exists>j. ?ivm p = Some j \<and> unat j < length col1 \<and> col1 ! unat j \<noteq> 1"
      using j wf_lookup_in_range[OF wf j] c1(2) by simp
  qed
  obtain i where i: "?ivm x = Some i" using x rega by auto
  have r: "unat i < length col1" using wf_lookup_in_range[OF wf i] c1(2) by simp
  have o: "col1 ! unat i = 1" using c1(3) i x by simp
  have sb: "seed_b ?ivm subset_b (col1, ?qa) = Inr (Return (x, 0))"
    unfolding b by (rule seed_b_return[OF p i r o])
  show "\<exists>cq. seed_a ?ivm subset_a (replicate (size_digraph g) 0, []) = Inr cq \<and>
           seed_b ?ivm subset_b cq = Inr (Return (x, 0))"
    using c1(1) sb by blast
  show "ancestor_length g subset_a subset_b = Some (Inr (x, 0))"
    unfolding ancestor_length_def using c1(1) sb by simp
qed

text \<open>
  C3: on a constructed digraph, for sets of registered ids that overlap, the second
  seeding loop returns: the query yields distance 0 and the first id of the second set
  that also lies in the first, and the search loop is not entered. In particular a
  registered id queried against itself gives itself at distance 0.
\<close>

theorem overlapping_sets_distance_zero:
  assumes "constructed g" and "set subset_a \<union> set subset_b \<subseteq> dom (id_vert_map g)"
    and "set subset_a \<inter> set subset_b \<noteq> {}"
  shows "hd (filter (\<lambda>b. b \<in> set subset_a) subset_b) \<in> set subset_a \<inter> set subset_b \<and>
         ancestor_length g subset_a subset_b
           = Some (Inr (hd (filter (\<lambda>b. b \<in> set subset_a) subset_b), 0)) \<and>
         (\<exists>cq. seed_a (id_vert_map g) subset_a (replicate (size_digraph g) 0, []) = Inr cq \<and>
            seed_b (id_vert_map g) subset_b cq
              = Inr (Return (hd (filter (\<lambda>b. b \<in> set subset_a) subset_b), 0))) \<and>
         (\<forall>v \<in> set subset_a \<inter> set subset_b.
            sca_ancestor g v v = Some (Inr v) \<and> sca_length g v v = Some (Inr 0))"
proof -
  have wf: "wf_digraph g" using assms(1) by (rule constructed_wf)
  have rega: "set subset_a \<subseteq> dom (id_vert_map g)" using assms(2) by simp
  have "\<exists>b \<in> set subset_b. b \<in> set subset_a" using assms(3) by blast
  then obtain pre x post where s: "subset_b = pre @ x # post" "x \<in> set subset_a"
      "\<forall>p \<in> set pre. p \<notin> set subset_a" "hd (filter (\<lambda>b. b \<in> set subset_a) subset_b) = x"
    by (rule first_in_split)
  have pre: "\<forall>p \<in> set pre. p \<in> dom (id_vert_map g) \<and> p \<notin> set subset_a"
    using s(1) s(3) assms(2) by auto
  note er = early_return[OF wf rega s(1) s(2) pre]
  have 1: "x \<in> set subset_a \<inter> set subset_b" using s(1) s(2) by simp
  have 4: "sca_ancestor g v v = Some (Inr v) \<and> sca_length g v v = Some (Inr 0)"
    if "v \<in> set subset_a \<inter> set subset_b" for v
  proof -
    have "set [v] \<subseteq> dom (id_vert_map g)" using that rega by auto
    then have "ancestor_length g [v] [v] = Some (Inr (v, 0))"
      using early_return(2)[OF wf, of "[v]" "[v]" "[]" v "[]"] by simp
    then show ?thesis by (simp add: sca_ancestor_def sca_length_def)
  qed
  show ?thesis using 1 er 4 unfolding s(4) by blast
qed

theorem overlapping_sets_distance_zero_witness:
  "constructed two_trees \<and> ancestor_length two_trees [1, 2] [4, 2, 1] = Some (Inr (2, 0)) \<and>
   sca_ancestor two_trees 2 2 = Some (Inr 2) \<and> sca_length two_trees 2 2 = Some (Inr 0)"
proof -
  have c: "constructed two_trees" by (rule constructed_two_trees)
  have "id_vert_map two_trees 4 = Some 3" by code_simp
  then have r: "set [1, 2] \<union> set [4, 2, 1] \<subseteq> dom (id_vert_map two_trees)"
    using two_trees_lookup by auto
  have n: "set [1, 2] \<inter> set [4, 2, 1] \<noteq> ({} :: uint set)" by simp
  have h: "hd (filter (\<lambda>b. b \<in> set [1, 2]) [4, 2, 1 :: uint]) = 2" by simp
  show ?thesis using overlapping_sets_distance_zero[OF c r n] c unfolding h by simp
qed

lemma unknown_in_first_set:
  assumes wf: "wf_digraph g" and u: "\<not> set subset_a \<subseteq> dom (id_vert_map g)"
  shows "ancestor_length g subset_a subset_b = Some (Inl OutOfRange)"
proof -
  have "\<exists>a \<in> set subset_a. id_vert_map g a = None" using u by auto
  then obtain pre x post where s: "subset_a = pre @ x # post" "id_vert_map g x = None"
      "\<forall>p \<in> set pre. id_vert_map g p \<noteq> None"
    using split_list_first_prop[of subset_a "\<lambda>a. id_vert_map g a = None"] by blast
  have "\<forall>p \<in> set pre. \<exists>j. id_vert_map g p = Some j \<and> unat j < length (replicate (size_digraph g) (0 :: cchar))"
  proof
    fix p assume "p \<in> set pre"
    then obtain j where j: "id_vert_map g p = Some j" using s(3) by auto
    then show "\<exists>j. id_vert_map g p = Some j \<and> unat j < length (replicate (size_digraph g) (0 :: cchar))"
      using wf_lookup_in_range[OF wf j] by (simp add: size_digraph_def)
  qed
  then have "seed_a (id_vert_map g) subset_a (replicate (size_digraph g) 0, []) = Inl OutOfRange"
    unfolding s(1) using s(2) by (rule seed_a_unknown)
  then show ?thesis by (simp add: ancestor_length_def)
qed

lemma unknown_in_second_set:
  assumes wf: "wf_digraph g" and rega: "set subset_a \<subseteq> dom (id_vert_map g)"
    and b: "subset_b = pre @ u # post" and u: "id_vert_map g u = None"
    and pre: "\<forall>p \<in> set pre. p \<in> dom (id_vert_map g) \<and> p \<notin> set subset_a"
  shows "ancestor_length g subset_a subset_b = Some (Inl OutOfRange)"
proof -
  let ?ivm = "id_vert_map g"
  let ?qa = "map (\<lambda>a. the (?ivm a)) subset_a"
  obtain col1 where c1: "seed_a ?ivm subset_a (replicate (size_digraph g) 0, []) = Inr (col1, ?qa)"
      "length col1 = length (graph g)"
      "\<forall>x i. ?ivm x = Some i \<longrightarrow> col1 ! unat i = (if x \<in> set subset_a then 1 else 0)"
    using seed_a_wf[OF wf rega] by blast
  have p: "\<forall>p \<in> set pre. \<exists>j. ?ivm p = Some j \<and> unat j < length col1 \<and> col1 ! unat j \<noteq> 1"
  proof
    fix p assume p: "p \<in> set pre"
    then obtain j where j: "?ivm p = Some j" using pre by auto
    have "p \<notin> set subset_a" using pre p by blast
    then have "col1 ! unat j = 0" using c1(3) j by simp
    then show "\<exists>j. ?ivm p = Some j \<and> unat j < length col1 \<and> col1 ! unat j \<noteq> 1"
      using j wf_lookup_in_range[OF wf j] c1(2) by simp
  qed
  have "seed_b ?ivm subset_b (col1, ?qa) = Inl OutOfRange"
    unfolding b by (rule seed_b_unknown[OF p u])
  then show ?thesis unfolding ancestor_length_def using c1(1) by simp
qed

text \<open>
  C10, as the code has it: on a constructed digraph, a query with an unregistered id
  throws \<open>out_of_range\<close> unless the first set is registered throughout and some id of
  the second set, ahead of its first unregistered one, also lies in the first set; then
  the early return yields the first such id with distance 0 and the unknown id is never
  looked up.
\<close>

theorem unknown_id_out_of_range:
  assumes "constructed g" and "\<not> set subset_a \<union> set subset_b \<subseteq> dom (id_vert_map g)"
  shows "ancestor_length g subset_a subset_b =
     (if set subset_a \<subseteq> dom (id_vert_map g) \<and>
         set (takeWhile (\<lambda>b. b \<in> dom (id_vert_map g)) subset_b) \<inter> set subset_a \<noteq> {}
      then Some (Inr (hd (filter (\<lambda>b. b \<in> set subset_a) subset_b), 0))
      else Some (Inl OutOfRange))"
proof (cases "set subset_a \<subseteq> dom (id_vert_map g)")
  case False
  then show ?thesis using unknown_in_first_set[OF constructed_wf[OF assms(1)] False] by simp
next
  case True
  have wf: "wf_digraph g" using assms(1) by (rule constructed_wf)
  let ?known = "\<lambda>b. b \<in> dom (id_vert_map g)"
  have "\<exists>b \<in> set subset_b. \<not> ?known b" using assms(2) True by auto
  then obtain pre u post where s: "subset_b = pre @ u # post" "\<not> ?known u"
      "\<forall>p \<in> set pre. \<not> \<not> ?known p"
    using split_list_first_prop[of subset_b "\<lambda>b. \<not> ?known b"] by blast
  have tw: "takeWhile ?known subset_b = pre" using s by (simp add: takeWhile_append2)
  have un: "id_vert_map g u = None" using s(2) by auto
  show ?thesis
  proof (cases "set pre \<inter> set subset_a \<noteq> {}")
    case False
    then have "\<forall>p \<in> set pre. p \<in> dom (id_vert_map g) \<and> p \<notin> set subset_a" using s(3) by auto
    then have "ancestor_length g subset_a subset_b = Some (Inl OutOfRange)"
      using unknown_in_second_set[OF wf True s(1) un] by blast
    then show ?thesis using False tw by simp
  next
    case meet: True
    then have "\<exists>b \<in> set pre. b \<in> set subset_a" by blast
    then obtain pre1 x post1 where t: "pre = pre1 @ x # post1" "x \<in> set subset_a"
        "\<forall>p \<in> set pre1. p \<notin> set subset_a" "hd (filter (\<lambda>b. b \<in> set subset_a) pre) = x"
      by (rule first_in_split)
    have b: "subset_b = pre1 @ x # (post1 @ u # post)" using s(1) t(1) by simp
    have p1: "\<forall>p \<in> set pre1. p \<in> dom (id_vert_map g) \<and> p \<notin> set subset_a"
      using s(3) t(1) t(3) by auto
    have "filter (\<lambda>b. b \<in> set subset_a) pre1 = []" using t(3) by (simp add: filter_empty_conv)
    then have h: "hd (filter (\<lambda>b. b \<in> set subset_a) subset_b) = x" using b t(2) by simp
    have "ancestor_length g subset_a subset_b = Some (Inr (x, 0))"
      by (rule early_return(2)[OF wf True b t(2) p1])
    then show ?thesis using True meet tw h by simp
  qed
qed

theorem unknown_id_out_of_range_witness:
  "constructed two_trees \<and> id_vert_map two_trees 7 = None \<and>
   ancestor_length two_trees [2] [1, 7, 2] = Some (Inl OutOfRange) \<and>
   ancestor_length two_trees [7] [2] = Some (Inl OutOfRange) \<and>
   ancestor_length two_trees [2, 1] [3, 1, 7] = Some (Inr (1, 0))"
proof -
  have c: "constructed two_trees" by (rule constructed_two_trees)
  have d: "id_vert_map two_trees 7 = None" "id_vert_map two_trees 1 = Some 0"
    "id_vert_map two_trees 2 = Some 2" "id_vert_map two_trees 3 = Some 1" by code_simp+
  have 1: "ancestor_length two_trees [2] [1, 7, 2] = Some (Inl OutOfRange)"
    using unknown_id_out_of_range[OF c, of "[2]" "[1, 7, 2]"] d by (auto simp: dom_def)
  have 2: "ancestor_length two_trees [7] [2] = Some (Inl OutOfRange)"
    using unknown_id_out_of_range[OF c, of "[7]" "[2]"] d by (auto simp: dom_def)
  have 3: "ancestor_length two_trees [2, 1] [3, 1, 7] = Some (Inr (1, 0))"
    using unknown_id_out_of_range[OF c, of "[2, 1]" "[3, 1, 7]"] d by (auto simp: dom_def)
  show ?thesis using c d(1) 1 2 3 by simp
qed

text \<open>
  C10 as stated fails: 7 is not registered in the two trees, yet the query of \<open>{2}\<close>
  against \<open>2, 7\<close> returns \<open>(2, 0)\<close>.
\<close>

theorem unknown_id_counterexample:
  "id_vert_map two_trees 7 = None \<and> ancestor_length two_trees [2] [2, 7] = Some (Inr (2, 0))"
  by code_simp

text \<open>
  C1 fails on the code: in the rooted DAG \<open>uneven_dag\<close> vertex 20 is one edge from 10 and
  four edges from 50, a common ancestor at total distance 5, but the query returns
  vertex 30 with distance 6. Vertex 30 is coloured from 10 first, the side of 50 stops
  there, and the edge from 30 to 20 joins two vertices of one colour, so the shorter
  meeting is never recorded.
\<close>

theorem ancestor_length_not_shortest:
  "ancestor_length uneven_dag [10] [50] = Some (Inr (30, 6)) \<and>
   walk uneven_dag 10 1 20 \<and> walk uneven_dag 50 4 20"
  by code_simp

text \<open>
  C4 fails on the code: on the same digraph the distance from 10 to 50 is reported as 6
  and the distance from 50 to 10 as 5.
\<close>

theorem sca_length_not_symmetric:
  "sca_length uneven_dag 10 50 = Some (Inr 6) \<and> sca_length uneven_dag 50 10 = Some (Inr 5)"
  by code_simp

lemma ancestor_length_fields:
  assumes "graph g' = graph g" "id_vert_map g' = id_vert_map g" "vert_id_map g' = vert_id_map g"
  shows "ancestor_length g' subset_a subset_b = ancestor_length g subset_a subset_b"
  unfolding ancestor_length_def size_digraph_def assms by (rule refl)

lemma get_neighbours_fields:
  assumes "graph g' = graph g" "id_vert_map g' = id_vert_map g" "vert_id_map g' = vert_id_map g"
  shows "get_neighbours g' v = get_neighbours g v"
  unfolding get_neighbours_def assms by (rule refl)

text \<open>
  The calls that only read: \<open>reset_graph_size\<close> leaves the vertex count, the neighbours
  of every id and the result of every query of the digraph at hand as they were.
\<close>

lemma reset_graph_size_observations:
  "size_digraph (reset_graph_size n g) = size_digraph g \<and>
   get_neighbours (reset_graph_size n g) v = get_neighbours g v \<and>
   ancestor_length (reset_graph_size n g) subset_a subset_b = ancestor_length g subset_a subset_b"
proof -
  have f: "graph (reset_graph_size n g) = graph g"
    "id_vert_map (reset_graph_size n g) = id_vert_map g"
    "vert_id_map (reset_graph_size n g) = vert_id_map g"
    by (simp_all add: reset_graph_size_def)
  show ?thesis
    using f ancestor_length_fields[OF f] get_neighbours_fields[OF f]
    by (simp add: size_digraph_def)
qed

text \<open>
  C9 fails on the code: the reserved capacity decides what later calls do. The eight
  vertices of \<open>uneven_dag\<close> are inserted by the same eight calls of \<open>add_edge\<close>; after
  \<open>reset_graph_size(8)\<close> every call is defined and 51 gets its neighbour 52, after
  \<open>reset_graph_size(7)\<close> the call \<open>add_edge(51, 52)\<close> reallocates \<open>graph\<close> under the row
  reference and is undefined.
\<close>

theorem reserve_decides_later_edges:
  "add_edges uneven_edges (reset_graph_size 7 empty_digraph) = Inl Dangling \<and>
   \<not> isl (add_edges uneven_edges (reset_graph_size 8 empty_digraph)) \<and>
   get_neighbours (projr (add_edges uneven_edges (reset_graph_size 8 empty_digraph))) 51 = Inr [52]"
  by code_simp

section \<open>Outcast\<close>








text \<open>As long as the sum of the distances stays below \<open>2^32\<close>, the \<open>unsigned\<close> sum is the sum.\<close>

lemma unat_sum_no_overflow:
  fixes f :: "'a \<Rightarrow> uint"
  assumes "finite S" and "(\<Sum>u \<in> S. unat (f u)) < 2 ^ 32"
  shows "unat (\<Sum>u \<in> S. f u) = (\<Sum>u \<in> S. unat (f u))"
  using assms
proof (induction S rule: finite_induct)
  case empty
  then show ?case by simp
next
  case (insert x S)
  have b: "unat (f x) + (\<Sum>u \<in> S. unat (f u)) < 2 ^ 32" using insert.prems insert.hyps by simp
  then have "(\<Sum>u \<in> S. unat (f u)) < 2 ^ 32" by simp
  then have ih: "unat (\<Sum>u \<in> S. f u) = (\<Sum>u \<in> S. unat (f u))" by (rule insert.IH)
  have "unat (f x + (\<Sum>u \<in> S. f u)) = unat (f x) + unat (\<Sum>u \<in> S. f u)"
    using b ih by (simp add: unat_add_lem[THEN iffD1])
  then show ?case using insert.hyps ih by simp
qed

lemma unsigned_total_no_overflow:
  assumes "finite nouns" and "(\<Sum>u \<in> nouns - {w}. unat (asked_distance d u w)) < 2 ^ 32"
  shows "unat (unsigned_total d nouns w) = (\<Sum>u \<in> nouns - {w}. unat (asked_distance d u w))"
  unfolding unsigned_total_def using assms by (simp add: unat_sum_no_overflow)

text \<open>
  Where the distances of the group are symmetric and a noun's sum stays below \<open>2^32\<close>,
  the sum the source computes is the sum of the specification.
\<close>

lemma distance_sum_agrees:
  assumes fin: "finite nouns"
    and sym: "\<forall>u \<in> nouns - {w}. d w u = d u w"
    and small: "(\<Sum>u \<in> nouns - {w}. unat (asked_distance d u w)) < 2 ^ 32"
  shows "distance_sum d nouns w = Word.uint (unsigned_total d nouns w)"
proof -
  have e: "distance_to d w u = int (unat (asked_distance d u w))" if "u \<in> nouns - {w}" for u
  proof -
    have "d w u = d u w" using sym that by blast
    then show ?thesis
      by (simp add: distance_to_def asked_distance_def split: option.splits sum.splits)
  qed
  have "distance_sum d nouns w = (\<Sum>u \<in> nouns - {w}. int (unat (asked_distance d u w)))"
    unfolding distance_sum_def by (rule sum.cong) (simp_all add: e)
  also have "\<dots> = int (\<Sum>u \<in> nouns - {w}. unat (asked_distance d u w))" by simp
  also have "\<dots> = int (unat (unsigned_total d nouns w))"
    using unsigned_total_no_overflow[OF fin small] by simp
  finally show ?thesis by simp
qed






end
